theory Spec2Isabelle
  imports Main "HOL-Library.Multiset" "HOL-Library.AList" "HOL-Library.Product_Lexorder"
begin

section \<open>Strings\<close>

text \<open>
  A Python string is a list of Unicode code points. A literal of the source is written
  \<open>lit ''...''\<close>. What Python does to an ASCII character is written out below; what it
  does to the other characters is read from the tables of the platform (the Unicode
  database of the interpreter and the C library), which are parameters of the model:
  every theorem holds whatever they contain.
\<close>

type_synonym pystr = "nat list"

definition lit :: "string \<Rightarrow> pystr" where
  "lit s = map of_char s"

record platform =
  case_table :: "nat \<Rightarrow> nat list"
  digit_table :: "nat \<Rightarrow> nat option"
  fold_table :: "nat \<Rightarrow> nat \<Rightarrow> bool"
  month_table :: "pystr \<Rightarrow> nat option"
  year_padded :: bool

text \<open>
  \<open>case_table c\<close> is \<open>str.upper\<close> of the non-ASCII character \<open>c\<close> (one character or
  several); \<open>digit_table c\<close> is the value of the non-ASCII decimal digit \<open>c\<close>;
  \<open>fold_table a c\<close> says whether the non-ASCII character \<open>c\<close> matches the ASCII pattern
  character \<open>a\<close> when case is ignored; \<open>month_table s\<close> is the number of the month
  whose name is \<open>s.lower()\<close>, for a text \<open>s\<close> with a non-ASCII character that matched a
  month name; \<open>year_padded\<close> says whether \<open>strftime\<close> writes
  \<open>%Y\<close> on four digits (it does on some C libraries and writes the bare number on
  others). The platform \<open>plain\<close> has empty tables.
\<close>

definition plain :: platform where
  "plain = \<lparr>case_table = (\<lambda>c. [c]), digit_table = (\<lambda>c. None),
            fold_table = (\<lambda>a c. False), month_table = (\<lambda>s. None),
            year_padded = True\<rparr>"

text \<open>
  The white space of \<open>str.strip\<close>, \<open>str.isspace\<close> and the regular expression \<open>\s\<close>: the
  code points the interpreter lists as white space. None of them has a case mapping.
\<close>

definition isspace :: "nat \<Rightarrow> bool" where
  "isspace c =
     ((9 \<le> c \<and> c \<le> 13) \<or> (28 \<le> c \<and> c \<le> 32) \<or> c = 0x85 \<or> c = 0xA0 \<or> c = 0x1680
      \<or> (0x2000 \<le> c \<and> c \<le> 0x200A) \<or> c = 0x2028 \<or> c = 0x2029 \<or> c = 0x202F
      \<or> c = 0x205F \<or> c = 0x3000)"

definition upper_cp :: "platform \<Rightarrow> nat \<Rightarrow> nat list" where
  "upper_cp P c =
     (if 97 \<le> c \<and> c \<le> 122 then [c - 32]
      else if c < 128 \<or> isspace c then [c]
      else case_table P c)"

definition upper :: "platform \<Rightarrow> pystr \<Rightarrow> pystr" where
  "upper P s = concat (map (upper_cp P) s)"

definition strip :: "pystr \<Rightarrow> pystr" where
  "strip s = rev (dropWhile isspace (rev (dropWhile isspace s)))"

text \<open>\<open>str(n)\<close> for a non-negative integer: its decimal digits, most significant first.\<close>

definition digit_char :: "nat \<Rightarrow> nat" where
  "digit_char d = 48 + d"

fun str_nat :: "nat \<Rightarrow> pystr" where
  "str_nat n = (if n < 10 then [digit_char n] else str_nat (n div 10) @ [digit_char (n mod 10)])"

declare str_nat.simps [simp del]

text \<open>
  The decimal digits (the class \<open>\d\<close>) and \<open>int(s)\<close> on a string of digits; \<open>int\<close> skips
  white space around the digits.
\<close>

definition digit_value :: "platform \<Rightarrow> nat \<Rightarrow> nat option" where
  "digit_value P c =
     (if 48 \<le> c \<and> c \<le> 57 then Some (c - 48)
      else if c < 128 then None else digit_table P c)"

definition isdigit :: "platform \<Rightarrow> nat \<Rightarrow> bool" where
  "isdigit P c = (digit_value P c \<noteq> None)"

definition int_of_digits :: "platform \<Rightarrow> pystr \<Rightarrow> nat" where
  "int_of_digits P s =
     foldl (\<lambda>acc ch. 10 * acc + (case digit_value P ch of Some v \<Rightarrow> v | None \<Rightarrow> 0)) 0 s"

definition py_int :: "platform \<Rightarrow> pystr \<Rightarrow> nat" where
  "py_int P s = int_of_digits P (strip s)"

section \<open>The word scrambler (builder.py, scramble\_word)\<close>

text \<open>
  \<open>random.shuffle(x)\<close> is the Fisher-Yates loop of the standard library:
  \<^verbatim>\<open>for i in reversed(range(1, len(x))): j = randbelow(i + 1); x[i], x[j] = x[j], x[i]\<close>.
  The outcome of one shuffle is the function \<open>d\<close> giving the draw at each position \<open>i\<close>
  (taken modulo \<open>i + 1\<close>, so that every function is an outcome and every \<open>j \<le> i\<close> is
  drawn by some function). The random generator is the sequence of the outcomes of the
  successive shuffles, \<open>rng c\<close> being the outcome of shuffle number \<open>c\<close>; the number of
  shuffles made so far is threaded through the code as state.
\<close>

type_synonym draws = "nat \<Rightarrow> nat"
type_synonym rng = "nat \<Rightarrow> draws"

fun shuffle_steps :: "draws \<Rightarrow> nat \<Rightarrow> 'a list \<Rightarrow> 'a list" where
  "shuffle_steps d 0 xs = xs"
| "shuffle_steps d (Suc k) xs =
     (let i = Suc k; j = d i mod (i + 1)
      in shuffle_steps d k (xs[i := xs ! j, j := xs ! i]))"

definition shuffle :: "draws \<Rightarrow> 'a list \<Rightarrow> 'a list" where
  "shuffle d xs = shuffle_steps d (length xs - 1) xs"

function scramble_loop :: "rng \<Rightarrow> nat \<Rightarrow> pystr \<Rightarrow> pystr \<Rightarrow> nat \<Rightarrow> pystr \<times> nat" where
  "scramble_loop g c word scrambled attempts =
     (if scrambled = word \<and> attempts < 10
      then scramble_loop g (Suc c) word (shuffle (g c) word) (Suc attempts)
      else (scrambled, c))"
  by pat_completeness auto
termination
  by (relation "measure (\<lambda>(g, c, word, scrambled, attempts). 10 - attempts)") auto

declare scramble_loop.simps [simp del]

definition scramble_word :: "platform \<Rightarrow> rng \<Rightarrow> nat \<Rightarrow> pystr \<Rightarrow> pystr \<times> nat" where
  "scramble_word P g c word0 =
     (let word = upper P word0
      in if length word \<le> 1 then (word, c)
         else (case scramble_loop g c word word 0 of
                 (scrambled, c') \<Rightarrow> (if scrambled = word then rev word else scrambled, c')))"

section \<open>XML elements (xml.etree.ElementTree)\<close>

text \<open>
  An element has a tag, a dictionary of attributes (in insertion order), a text, a tail
  and children. The files on disk are modelled by the element tree they parse to.
\<close>

datatype element =
  Element (el_tag: pystr) (el_attrib: "(pystr \<times> pystr) list")
    (el_text: "pystr option") (el_tail: "pystr option") (el_children: "element list")

definition el_get :: "element \<Rightarrow> pystr \<Rightarrow> pystr \<Rightarrow> pystr" where
  "el_get e k dflt = (case map_of (el_attrib e) k of Some v \<Rightarrow> v | None \<Rightarrow> dflt)"

definition el_set :: "element \<Rightarrow> pystr \<Rightarrow> pystr \<Rightarrow> element" where
  "el_set e k v =
     Element (el_tag e) (AList.update k v (el_attrib e)) (el_text e) (el_tail e) (el_children e)"

definition el_pop :: "pystr \<Rightarrow> element \<Rightarrow> element" where
  "el_pop k e =
     Element (el_tag e) (AList.delete k (el_attrib e)) (el_text e) (el_tail e) (el_children e)"

definition findall :: "element \<Rightarrow> pystr \<Rightarrow> element list" where
  "findall e tg = filter (\<lambda>c. el_tag c = tg) (el_children e)"

definition find_child :: "element \<Rightarrow> pystr \<Rightarrow> element option" where
  "find_child e tg = List.find (\<lambda>c. el_tag c = tg) (el_children e)"

definition set_tail :: "pystr option \<Rightarrow> element \<Rightarrow> element" where
  "set_tail ta e = Element (el_tag e) (el_attrib e) (el_text e) ta (el_children e)"

text \<open>\<open>not s or not s.strip()\<close> for a text or tail \<open>s\<close>.\<close>

definition blank :: "pystr option \<Rightarrow> bool" where
  "blank t = (case t of None \<Rightarrow> True | Some s \<Rightarrow> s = [] \<or> strip s = [])"

text \<open>The tails \<open>indent\<close> gives the children: \<open>j\<close> to all but the last, \<open>i\<close> to the last.\<close>

fun set_tails :: "pystr \<Rightarrow> pystr \<Rightarrow> element list \<Rightarrow> element list" where
  "set_tails j i [] = []"
| "set_tails j i [c] = [set_tail (Some i) c]"
| "set_tails j i (c # c' # cs) = set_tail (Some j) c # set_tails j i (c' # cs)"

definition newline_indent :: "nat \<Rightarrow> pystr" where
  "newline_indent level = 10 # concat (replicate level (lit ''  ''))"

fun indent :: "element \<Rightarrow> nat \<Rightarrow> element" where
  "indent (Element tg at tx ta cs) level =
     (let i = newline_indent level; j = newline_indent (level + 1)
      in if cs \<noteq> []
         then Element tg at (if blank tx then Some j else tx) ta
                (set_tails j i (map (\<lambda>c. indent c (level + 1)) cs))
         else Element tg at (if blank tx then Some [] else tx)
                (if blank ta then Some i else ta) [])"

section \<open>Dates (datetime.strptime, strftime)\<close>

text \<open>
  A \<open>datetime\<close> whose time of day is midnight, as year, month and day; the order of
  \<open>datetime\<close> is the lexicographic order of the triple. \<open>datetime(y, m, d)\<close> raises
  \<open>ValueError\<close> outside the calendar: \<open>mk_datetime\<close> is \<open>None\<close> there.
\<close>

type_synonym datetime = "nat \<times> nat \<times> nat"

definition datetime_min :: datetime where
  "datetime_min = (1, 1, 1)"

definition is_leap :: "nat \<Rightarrow> bool" where
  "is_leap y = (y mod 4 = 0 \<and> (y mod 100 \<noteq> 0 \<or> y mod 400 = 0))"

definition days_in_month :: "nat \<Rightarrow> nat \<Rightarrow> nat" where
  "days_in_month y m =
     (if m = 2 then (if is_leap y then 29 else 28)
      else if m = 4 \<or> m = 6 \<or> m = 9 \<or> m = 11 then 30 else 31)"

definition mk_datetime :: "nat \<Rightarrow> nat \<Rightarrow> nat \<Rightarrow> datetime option" where
  "mk_datetime y m d =
     (if 1 \<le> y \<and> y \<le> 9999 \<and> 1 \<le> m \<and> m \<le> 12 \<and> 1 \<le> d \<and> d \<le> days_in_month y m
      then Some (y, m, d) else None)"

text \<open>
  \<open>strptime\<close> compiles the format into a regular expression, matches it at the start
  of the string (a backtracking match, alternatives in the order written, case ignored),
  and raises \<open>ValueError\<close> when the match fails, when text remains after it, or when
  the fields are no date. The directives are
  \<^verbatim>\<open>%Y = \d\d\d\d\<close>, \<^verbatim>\<open>%m = 1[0-2]|0[1-9]|[1-9]\<close>,
  \<^verbatim>\<open>%d = 3[0-1]|[1-2]\d|0[1-9]|[1-9]| [1-9]\<close>, \<^verbatim>\<open>%B\<close> = the month names
  of the C locale, longest first, and white space in the format is \<^verbatim>\<open>\s+\<close>.
  An alternative is a list of atoms, each matching one character: a literal, a class
  of literals, or \<open>\d\<close>. Each piece of the expression takes its continuation \<open>k\<close>, so
  that a later failure backtracks into the earlier alternatives as the matcher does.
\<close>

datatype atom = Lit nat | Class "nat list" | Digit

text \<open>The subject character \<open>c\<close> against the ASCII pattern character \<open>a\<close>, case ignored.\<close>

definition ascii_lower :: "nat \<Rightarrow> nat" where
  "ascii_lower c = (if 65 \<le> c \<and> c \<le> 90 then c + 32 else c)"

definition ci_eq :: "platform \<Rightarrow> nat \<Rightarrow> nat \<Rightarrow> bool" where
  "ci_eq P a c = (if c < 128 then ascii_lower c = ascii_lower a else fold_table P a c)"

fun atom_ok :: "platform \<Rightarrow> atom \<Rightarrow> nat \<Rightarrow> bool" where
  "atom_ok P (Lit a) c = ci_eq P a c"
| "atom_ok P (Class as) c = list_ex (\<lambda>a. ci_eq P a c) as"
| "atom_ok P Digit c = isdigit P c"

fun match_atoms :: "platform \<Rightarrow> atom list \<Rightarrow> pystr \<Rightarrow> pystr option" where
  "match_atoms P [] s = Some s"
| "match_atoms P (a # as) [] = None"
| "match_atoms P (a # as) (c # cs) = (if atom_ok P a c then match_atoms P as cs else None)"

text \<open>
  The alternatives of a group, each with a tag: the continuation gets the tag of the
  alternative that matched, the text it matched and the rest of the string.
\<close>

fun re_alts ::
  "platform \<Rightarrow> (atom list \<times> nat) list \<Rightarrow> (nat \<Rightarrow> pystr \<Rightarrow> pystr \<Rightarrow> 'a option) \<Rightarrow> pystr \<Rightarrow> 'a option"
  where
  "re_alts P [] k s = None"
| "re_alts P ((a, v) # alts) k s =
     (case match_atoms P a s of
        None \<Rightarrow> re_alts P alts k s
      | Some rest \<Rightarrow>
          (case k v (take (length a) s) rest of
             Some r \<Rightarrow> Some r
           | None \<Rightarrow> re_alts P alts k s))"

definition re_lit :: "platform \<Rightarrow> char \<Rightarrow> (pystr \<Rightarrow> 'a option) \<Rightarrow> pystr \<Rightarrow> 'a option" where
  "re_lit P ch k s =
     (case s of [] \<Rightarrow> None | x # xs \<Rightarrow> if atom_ok P (Lit (of_char ch)) x then k xs else None)"

fun try_drops :: "nat \<Rightarrow> (pystr \<Rightarrow> 'a option) \<Rightarrow> pystr \<Rightarrow> 'a option" where
  "try_drops 0 k s = None"
| "try_drops (Suc n) k s =
     (case k (drop (Suc n) s) of Some r \<Rightarrow> Some r | None \<Rightarrow> try_drops n k s)"

definition re_ws_plus :: "(pystr \<Rightarrow> 'a option) \<Rightarrow> pystr \<Rightarrow> 'a option" where
  "re_ws_plus k s = try_drops (length (takeWhile isspace s)) k s"

definition nonzero :: atom where
  "nonzero = Class (lit ''123456789'')"

definition Y_alts :: "(atom list \<times> nat) list" where
  "Y_alts = [([Digit, Digit, Digit, Digit], 0)]"

definition m_alts :: "(atom list \<times> nat) list" where
  "m_alts = [([Lit (of_char CHR ''1''), Class (lit ''012'')], 0),
             ([Lit (of_char CHR ''0''), nonzero], 0),
             ([nonzero], 0)]"

definition d_alts :: "(atom list \<times> nat) list" where
  "d_alts = [([Lit (of_char CHR ''3''), Class (lit ''01'')], 0),
             ([Class (lit ''12''), Digit], 0),
             ([Lit (of_char CHR ''0''), nonzero], 0),
             ([nonzero], 0),
             ([Lit (of_char CHR '' ''), nonzero], 0)]"

definition month_names :: "string list" where
  "month_names = [''January'', ''February'', ''March'', ''April'', ''May'', ''June'', ''July'',
                  ''August'', ''September'', ''October'', ''November'', ''December'']"

definition B_alts :: "(atom list \<times> nat) list" where
  "B_alts = map (\<lambda>(name, m). (map Lit (lit name), m))
            [(''september'', 9), (''february'', 2), (''november'', 11), (''december'', 12),
             (''january'', 1), (''october'', 10), (''august'', 8), (''march'', 3),
             (''april'', 4), (''june'', 6), (''july'', 7), (''may'', 5)]"

text \<open>\<open>datetime.strptime(s, "%Y-%m-%d")\<close>; \<open>None\<close> is \<open>ValueError\<close>.\<close>

definition strptime_Ymd :: "platform \<Rightarrow> pystr \<Rightarrow> datetime option" where
  "strptime_Ymd P s =
     (case re_alts P Y_alts (\<lambda>_ y. re_lit P CHR ''-'' (re_alts P m_alts (\<lambda>_ m.
             re_lit P CHR ''-'' (re_alts P d_alts (\<lambda>_ d rest.
               Some (py_int P y, py_int P m, py_int P d, rest)))))) s of
        None \<Rightarrow> None
      | Some (y, m, d, rest) \<Rightarrow> if rest \<noteq> [] then None else mk_datetime y m d)"

text \<open>
  \<open>datetime.strptime(s, "%B %d, %Y")\<close>; \<open>None\<close> is \<open>ValueError\<close>. The month is
  the index of the lowered matched name in the list of month names.
\<close>

definition month_value :: "platform \<Rightarrow> nat \<Rightarrow> pystr \<Rightarrow> nat option" where
  "month_value P m name = (if list_all (\<lambda>c. c < 128) name then Some m else month_table P name)"

definition strptime_BdY :: "platform \<Rightarrow> pystr \<Rightarrow> datetime option" where
  "strptime_BdY P s =
     (case re_alts P B_alts (\<lambda>m name. re_ws_plus (re_alts P d_alts (\<lambda>_ d.
             re_lit P CHR '','' (re_ws_plus (re_alts P Y_alts (\<lambda>_ y rest.
               Some (y, (m, name), d, rest))))))) s of
        None \<Rightarrow> None
      | Some (y, (m, name), d, rest) \<Rightarrow>
          if rest \<noteq> [] then None
          else (case month_value P m name of
                  None \<Rightarrow> None
                | Some mv \<Rightarrow> mk_datetime (py_int P y) mv (py_int P d)))"

text \<open>
  \<open>dt.strftime("%B %d, %Y")\<close>: the month's name, the day on two digits and the year,
  on four digits where the platform pads it.
\<close>

definition zero_pad :: "nat \<Rightarrow> pystr \<Rightarrow> pystr" where
  "zero_pad w s = replicate (w - length s) 48 @ s"

definition strftime_BdY :: "platform \<Rightarrow> datetime \<Rightarrow> pystr" where
  "strftime_BdY P dt =
     (case dt of (y, m, d) \<Rightarrow>
        lit (month_names ! (m - 1)) @ lit '' '' @ zero_pad 2 (str_nat d) @ lit '', ''
        @ (if year_padded P then zero_pad 4 (str_nat y) else str_nat y))"

section \<open>The enricher (builder.py, build\_beeplus)\<close>

text \<open>The body of the loop over the words of a puzzle (lines 109 to 123).\<close>

definition build_word :: "platform \<Rightarrow> rng \<Rightarrow> nat \<Rightarrow> element \<Rightarrow> element \<times> nat" where
  "build_word P g c w =
     (let txt = strip (upper P (case el_text w of None \<Rightarrow> [] | Some s \<Rightarrow> s));
          start = take 1 txt;
          firsttwo = take 2 txt;
          len = str_nat (length txt)
      in case scramble_word P g c txt of
           (scrambled, c') \<Rightarrow>
             (Element (lit ''word'')
                [(lit ''original'', txt), (lit ''scrambled'', scrambled), (lit ''startletter'', start),
                 (lit ''firsttwo'', firsttwo), (lit ''length'', len)] None None [], c'))"

fun build_words :: "platform \<Rightarrow> rng \<Rightarrow> nat \<Rightarrow> element list \<Rightarrow> element list \<times> nat" where
  "build_words P g c [] = ([], c)"
| "build_words P g c (w # ws) =
     (case build_word P g c w of
        (e, c1) \<Rightarrow> (case build_words P g c1 ws of (es, c2) \<Rightarrow> (e # es, c2)))"

definition reformat_date :: "platform \<Rightarrow> pystr \<Rightarrow> pystr" where
  "reformat_date P date_str =
     (case strptime_Ymd P date_str of Some dt \<Rightarrow> strftime_BdY P dt | None \<Rightarrow> date_str)"

definition copy_letter :: "element \<Rightarrow> nat \<Rightarrow> element list" where
  "copy_letter puzzle i =
     (let tg = (lit ''letter'') @ str_nat i
      in case find_child puzzle tg of
           None \<Rightarrow> []
         | Some orig \<Rightarrow>
             (case el_text orig of
                None \<Rightarrow> []
              | Some t \<Rightarrow> if t = [] then [] else [Element tg [] (Some t) None []]))"

definition build_puzzle :: "platform \<Rightarrow> rng \<Rightarrow> nat \<Rightarrow> element \<Rightarrow> element \<times> nat" where
  "build_puzzle P g c puzzle =
     (let date_str = el_get puzzle (lit ''date'') [];
          formatted = reformat_date P date_str;
          attrs = [(lit ''date'', formatted), (lit ''url'', el_get puzzle (lit ''url'') []),
                   (lit ''puzzleid'', el_get puzzle (lit ''puzzleid'') []),
                   (lit ''letters'', el_get puzzle (lit ''letters'') [])];
          letters = concat (map (copy_letter puzzle) [1 ..< 8])
      in case build_words P g c (findall puzzle (lit ''word'')) of
           (ws, c') \<Rightarrow>
             (Element (lit ''puzzle'') attrs None None
                (letters @ [Element (lit ''words'') [] None None ws]), c'))"

fun build_puzzles :: "platform \<Rightarrow> rng \<Rightarrow> nat \<Rightarrow> element list \<Rightarrow> element list \<times> nat" where
  "build_puzzles P g c [] = ([], c)"
| "build_puzzles P g c (p # ps) =
     (case build_puzzle P g c p of
        (e, c1) \<Rightarrow> (case build_puzzles P g c1 ps of (es, c2) \<Rightarrow> (e # es, c2)))"

definition iso_key :: "platform \<Rightarrow> element \<Rightarrow> datetime" where
  "iso_key P p =
     (case strptime_BdY P (el_get p (lit ''date'') []) of Some dt \<Rightarrow> dt | None \<Rightarrow> datetime_min)"

text \<open>
  \<open>sorted(plus_root, key=iso_key)\<close>: Python's sort is stable, and a stable sort by key
  has one result, the one \<open>sort_key\<close> computes.
\<close>

definition mark_latest :: "element list \<Rightarrow> element list" where
  "mark_latest ps =
     (if ps \<noteq> []
      then (let qs = map (el_pop (lit ''subscribersonly'')) ps
            in butlast qs @ [el_set (last qs) (lit ''subscribersonly'') (lit ''yes'')])
      else ps)"

text \<open>
  The run: the input file is absent (\<open>None\<close>) or parses to a root element; the result
  is the message about the missing source, or the root element written to the output
  file.
\<close>

datatype build_result = SourceNotFound | Created element

definition enriched :: "platform \<Rightarrow> rng \<Rightarrow> element \<Rightarrow> element list" where
  "enriched P g root = mark_latest (sort_key (iso_key P) (fst (build_puzzles P g 0 (findall root (lit ''puzzle'')))))"

definition build_beeplus :: "platform \<Rightarrow> rng \<Rightarrow> element option \<Rightarrow> build_result" where
  "build_beeplus P g input_file =
     (case input_file of
        None \<Rightarrow> SourceNotFound
      | Some root \<Rightarrow> Created (indent (Element (lit ''bees'') [] None None (enriched P g root)) 0))"

subsection \<open>Reading the written archive\<close>

text \<open>
  The display date of a record, as \<open>iso_key\<close> reads it, and a record with its layout
  erased: \<open>indent\<close> changes nothing but tails and blank texts.
\<close>

definition display_date :: "element \<Rightarrow> pystr" where
  "display_date p = el_get p (lit ''date'') []"

definition date_key :: "platform \<Rightarrow> pystr \<Rightarrow> datetime" where
  "date_key P d = (case strptime_BdY P d of Some dt \<Rightarrow> dt | None \<Rightarrow> datetime_min)"

text \<open>
  The attribute \<open>k\<close> of an element, the word records of a written puzzle (the children
  of its \<open>words\<close> element), and the text of a source word as the loop reads it,
  uppercased and trimmed.
\<close>

definition attr :: "element \<Rightarrow> string \<Rightarrow> pystr option" where
  "attr e k = map_of (el_attrib e) (lit k)"

definition word_records :: "element \<Rightarrow> element list" where
  "word_records q = concat (map el_children (findall q (lit ''words'')))"

definition source_text :: "platform \<Rightarrow> element \<Rightarrow> pystr" where
  "source_text P w = strip (upper P (case el_text w of None \<Rightarrow> [] | Some s \<Rightarrow> s))"

fun unlayout :: "element \<Rightarrow> element" where
  "unlayout (Element tg at tx ta cs) =
     Element tg at (if blank tx then None else tx) None (map unlayout cs)"

section \<open>The fetcher (harvest.py)\<close>

datatype error =
  HTTPError | RuntimeError | IndexError | UnboundLocalError | JSONDecodeError
  | AttributeError | TypeError

subsection \<open>Python indexing\<close>

text \<open>\<open>s.find(ch)\<close>: the index of the first occurrence, or -1.\<close>

definition py_find :: "nat \<Rightarrow> pystr \<Rightarrow> int" where
  "py_find ch s = (if ch \<in> set s then int (length (takeWhile (\<lambda>x. x \<noteq> ch) s)) else - 1)"

text \<open>\<open>s[i]\<close>: a negative index counts from the end; out of range is \<open>IndexError\<close>.\<close>

definition py_index :: "pystr \<Rightarrow> int \<Rightarrow> nat option" where
  "py_index s i =
     (if 0 \<le> i \<and> i < int (length s) then Some (s ! nat i)
      else if i < 0 \<and> - int (length s) \<le> i then Some (s ! nat (int (length s) + i))
      else None)"

text \<open>\<open>s[a:b]\<close>: negative bounds count from the end, and both are clipped to the string.\<close>

definition clip :: "pystr \<Rightarrow> int \<Rightarrow> nat" where
  "clip s a = (let n = int (length s) in nat (if a < 0 then max (n + a) 0 else min a n))"

definition py_slice :: "pystr \<Rightarrow> int \<Rightarrow> int \<Rightarrow> pystr" where
  "py_slice s a b = take (clip s b - clip s a) (drop (clip s a) s)"

text \<open>\<open>m in s\<close> for strings: \<open>m\<close> occurs in \<open>s\<close> as a substring.\<close>

fun contains :: "pystr \<Rightarrow> pystr \<Rightarrow> bool" where
  "contains m [] = (m = [])"
| "contains m (x # xs) = (take (length m) (x # xs) = m \<or> contains m xs)"

subsection \<open>fetch\_today\_words\<close>

text \<open>
  The brace matching loop (lines 45 to 54), from index \<open>i\<close> with the running
  count \<open>cnt\<close>: the result is \<open>json_str\<close>, or \<open>None\<close> when the loop ends without
  assigning it.
\<close>

function scan :: "pystr \<Rightarrow> int \<Rightarrow> int \<Rightarrow> int \<Rightarrow> error + pystr option" where
  "scan script start i cnt =
     (if i < int (length script)
      then (case py_index script i of
              None \<Rightarrow> Inl IndexError
            | Some ch \<Rightarrow>
                (let cnt' = (if ch = (of_char CHR ''{'') then cnt + 1
                               else if ch = (of_char CHR ''}'') then cnt - 1 else cnt)
                 in if cnt' = 0 then Inr (Some (py_slice script start (i + 1)))
                    else scan script start (i + 1) cnt'))
      else Inr None)"
  by pat_completeness auto
termination
  by (relation "measure (\<lambda>(script, start, i, cnt). nat (int (length script) - i))") auto

declare scan.simps [simp del]

text \<open>
  Lines 45 to 56 up to the call of \<open>json.loads\<close>: the string handed to the JSON
  parser. Reading \<open>json_str\<close> when the loop has not assigned it is
  \<open>UnboundLocalError\<close>.
\<close>

definition extract_json :: "pystr \<Rightarrow> error + pystr" where
  "extract_json script =
     (let start = py_find (of_char CHR ''{'') script
      in case scan script start start 0 of
           Inl e \<Rightarrow> Inl e
         | Inr None \<Rightarrow> Inl UnboundLocalError
         | Inr (Some json_str) \<Rightarrow> Inr json_str)"

text \<open>
  JSON values as \<open>json.loads\<close> returns them (numbers as integers); the parser itself is
  a parameter \<open>loads\<close> of the model.
\<close>

datatype json =
  JNull | JBool bool | JNum int | JStr pystr | JArr "json list" | JObj "(pystr \<times> json) list"

text \<open>\<open>obj.get(k, dflt)\<close>: only a dictionary has \<open>get\<close>.\<close>

definition py_get :: "json \<Rightarrow> pystr \<Rightarrow> json \<Rightarrow> error + json" where
  "py_get obj k dflt =
     (case obj of
        JObj kvs \<Rightarrow> Inr (case map_of kvs k of Some v \<Rightarrow> v | None \<Rightarrow> dflt)
      | _ \<Rightarrow> Inl AttributeError)"

text \<open>\<open>[w.upper() for w in answers]\<close>: only a string has \<open>upper\<close>.\<close>

fun upper_items :: "platform \<Rightarrow> json list \<Rightarrow> error + pystr list" where
  "upper_items P [] = Inr []"
| "upper_items P (JStr s # xs) =
     (case upper_items P xs of Inl e \<Rightarrow> Inl e | Inr ws \<Rightarrow> Inr (upper P s # ws))"
| "upper_items P (x # xs) = Inl AttributeError"

definition upper_all :: "platform \<Rightarrow> json \<Rightarrow> error + pystr list" where
  "upper_all P answers =
     (case answers of
        JArr xs \<Rightarrow> upper_items P xs
      | JStr s \<Rightarrow> Inr (map (\<lambda>ch. upper P [ch]) s)
      | JObj kvs \<Rightarrow> Inr (map (\<lambda>kv. upper P (fst kv)) kvs)
      | _ \<Rightarrow> Inl TypeError)"

text \<open>
  The world of the fetcher: the archive file (absent, or the tree it parses to), the
  number of HTTP requests made, and the lines printed.
\<close>

record world =
  archive :: "element option"
  requests :: nat
  stdout :: "pystr list"

text \<open>
  The answer of the network to the request, were it made: a failure (of the request or
  of \<open>raise_for_status\<close>), or a page, given by the \<open>string\<close> of each of its script
  elements in document order.
\<close>

datatype http_response = RequestFailed | Page "pystr option list"

definition has_marker :: "pystr option \<Rightarrow> bool" where
  "has_marker s = (case s of None \<Rightarrow> False | Some t \<Rightarrow> t \<noteq> [] \<and> contains (lit ''window.gameData'') t)"

definition words_of_page :: "platform \<Rightarrow> (pystr \<Rightarrow> error + json) \<Rightarrow> pystr option list \<Rightarrow> error + pystr list" where
  "words_of_page P loads scripts =
     (case List.find has_marker scripts of
        None \<Rightarrow> Inl RuntimeError
      | Some None \<Rightarrow> Inl RuntimeError
      | Some (Some script) \<Rightarrow>
          if script = [] then Inl RuntimeError
          else (case extract_json script of
                  Inl e \<Rightarrow> Inl e
                | Inr json_str \<Rightarrow>
                    (case loads json_str of
                       Inl e \<Rightarrow> Inl e
                     | Inr data \<Rightarrow>
                         (case py_get data (lit ''today'') (JObj []) of
                            Inl e \<Rightarrow> Inl e
                          | Inr today \<Rightarrow>
                              (case py_get today (lit ''answers'') (JArr []) of
                                 Inl e \<Rightarrow> Inl e
                               | Inr answers \<Rightarrow> upper_all P answers)))))"

definition fetch_today_words ::
  "platform \<Rightarrow> (pystr \<Rightarrow> error + json) \<Rightarrow> http_response \<Rightarrow> world \<Rightarrow> (error + pystr list) \<times> world" where
  "fetch_today_words P loads resp w =
     (let w' = w\<lparr>requests := requests w + 1\<rparr>
      in case resp of
           RequestFailed \<Rightarrow> (Inl HTTPError, w')
         | Page scripts \<Rightarrow> (words_of_page P loads scripts, w'))"

subsection \<open>load\_existing\_dates, append\_puzzle, main\<close>

definition load_existing_dates :: "world \<Rightarrow> pystr option set" where
  "load_existing_dates w =
     (case archive w of
        None \<Rightarrow> {}
      | Some root \<Rightarrow> set (map (\<lambda>p. map_of (el_attrib p) (lit ''date'')) (findall root (lit ''puzzle''))))"

definition append_puzzle :: "pystr \<Rightarrow> pystr list \<Rightarrow> world \<Rightarrow> world" where
  "append_puzzle date_str ws w =
     (let root = (case archive w of
                    Some r \<Rightarrow> r
                  | None \<Rightarrow> Element (lit ''spelling_bees'') [] None None []);
          puzzle_el = Element (lit ''puzzle'') [(lit ''date'', date_str)] None None
                        (map (\<lambda>wd. Element (lit ''word'') [] (Some wd) None []) ws);
          root' = Element (el_tag root) (el_attrib root) (el_text root) (el_tail root)
                    (el_children root @ [puzzle_el])
      in w\<lparr>archive := Some (indent root' 0)\<rparr>)"

text \<open>
  One run of \<open>main\<close> on the date \<open>date_str\<close> of today: the exception that ends the run,
  if any, and the world after it.
\<close>

definition main ::
  "platform \<Rightarrow> (pystr \<Rightarrow> error + json) \<Rightarrow> http_response \<Rightarrow> pystr \<Rightarrow> world \<Rightarrow> error option \<times> world" where
  "main P loads resp date_str w =
     (let existing = load_existing_dates w
      in if Some date_str \<in> existing
         then (None, w\<lparr>stdout := stdout w
                 @ [(lit ''Puzzle for '') @ date_str @ (lit '' already exists. No action taken.'')]\<rparr>)
         else (case fetch_today_words P loads resp w of
                 (Inl e, w1) \<Rightarrow> (Some e, w1)
               | (Inr ws, w1) \<Rightarrow>
                   if ws = []
                   then (None, w1\<lparr>stdout := stdout w1
                           @ [(lit ''No words fetched for '') @ date_str @ (lit ''.'')]\<rparr>)
                   else (let w2 = append_puzzle date_str ws w1
                         in (None, w2\<lparr>stdout := stdout w2
                               @ [(lit ''Appended puzzle for '') @ date_str @ (lit '' with '')
                                  @ str_nat (length ws) @ (lit '' words.'')]\<rparr>))))"

subsection \<open>Reading the brace matching and the raw archive\<close>

text \<open>
  The brace depth of a text, as the specification words it: incremented on each \<open>{\<close>,
  decremented on each \<open>}\<close>.
\<close>

definition brace_step :: "int \<Rightarrow> nat \<Rightarrow> int" where
  "brace_step d ch = (if ch = (of_char CHR ''{'') then d + 1 else if ch = (of_char CHR ''}'') then d - 1 else d)"

definition brace_depth :: "pystr \<Rightarrow> int" where
  "brace_depth s = foldl brace_step 0 s"

text \<open>The script from its first \<open>{\<close> on.\<close>

definition from_first_brace :: "pystr \<Rightarrow> pystr" where
  "from_first_brace script = dropWhile (\<lambda>x. x \<noteq> (of_char CHR ''{'')) script"

text \<open>The dates of the puzzle records of the raw archive, in file order.\<close>

definition archive_dates :: "world \<Rightarrow> pystr option list" where
  "archive_dates w =
     (case archive w of
        None \<Rightarrow> []
      | Some root \<Rightarrow> map (\<lambda>p. map_of (el_attrib p) (lit ''date'')) (findall root (lit ''puzzle'')))"

section \<open>Properties of the scrambler\<close>

lemma lit_eq_iff [simp]: "lit s = lit t \<longleftrightarrow> s = t"
  by (simp add: lit_def inj_map_eq_map inj_on_def)

lemma lit_Nil [simp]: "lit [] = []"
  by (simp add: lit_def)

lemma length_lit [simp]: "length (lit s) = length s"
  by (simp add: lit_def)

lemmas eval_defs = lit_def plain_def isspace_def upper_cp_def upper_def strip_def digit_char_def
  digit_value_def isdigit_def int_of_digits_def py_int_def ascii_lower_def ci_eq_def
  re_lit_def re_ws_plus_def nonzero_def Y_alts_def m_alts_def d_alts_def month_names_def B_alts_def
  strptime_Ymd_def month_value_def strptime_BdY_def zero_pad_def strftime_BdY_def reformat_date_def
  mk_datetime_def days_in_month_def is_leap_def str_nat.simps

lemma shuffle_steps_mset: "k < length xs \<Longrightarrow> mset (shuffle_steps d k xs) = mset xs"
proof (induction k arbitrary: xs)
  case 0
  then show ?case by simp
next
  case (Suc k)
  let ?j = "d (Suc k) mod (Suc k + 1)"
  have "?j < Suc k + 1" by (rule mod_less_divisor) simp
  then have j: "?j < length xs" using Suc.prems by arith
  have "mset (xs[Suc k := xs ! ?j, ?j := xs ! Suc k]) = mset xs"
    using Suc.prems j by (simp add: mset_swap)
  moreover have "k < length (xs[Suc k := xs ! ?j, ?j := xs ! Suc k])"
    using Suc.prems by simp
  ultimately show ?case using Suc.IH by (simp add: Let_def)
qed

lemma shuffle_mset: "mset (shuffle d xs) = mset xs"
proof (cases xs)
  case Nil
  then show ?thesis by (simp add: shuffle_def)
next
  case (Cons x ys)
  then show ?thesis by (simp add: shuffle_def shuffle_steps_mset)
qed

lemma scramble_loop_mset:
  "mset scrambled = mset word \<Longrightarrow> mset (fst (scramble_loop g c word scrambled attempts)) = mset word"
proof (induction g c word scrambled attempts rule: scramble_loop.induct)
  case (1 g c word scrambled attempts)
  show ?case
  proof (cases "scrambled = word \<and> attempts < 10")
    case True
    then show ?thesis
      using "1.IH" by (subst scramble_loop.simps) (simp add: shuffle_mset)
  next
    case False
    then show ?thesis
      using "1.prems" by (subst scramble_loop.simps) auto
  qed
qed

lemma scramble_word_mset: "mset (fst (scramble_word P g c w)) = mset (upper P w)"
proof -
  have "mset (fst (scramble_loop g c (upper P w) (upper P w) 0)) = mset (upper P w)"
    by (rule scramble_loop_mset) simp
  then show ?thesis
    by (auto simp: scramble_word_def Let_def split: prod.splits)
qed

text \<open>
  Claim C2, as stated: the result has the length and the characters of the uppercased
  input, and an input of length at most 1 comes back uppercased and unchanged. The
  length test is made on the uppercased word, and uppercasing can lengthen: the one
  character U+FB01 (the ligature fi) uppercases to the two characters \<open>FI\<close>, which a
  shuffle turns into \<open>IF\<close>.
\<close>

theorem scramble_word_ligature_counterexample:
  "length [64257 :: nat] \<le> 1
   \<and> upper (plain\<lparr>case_table := (\<lambda>c. if c = 64257 then lit ''FI'' else [c])\<rparr>) [64257] = lit ''FI''
   \<and> fst (scramble_word (plain\<lparr>case_table := (\<lambda>c. if c = 64257 then lit ''FI'' else [c])\<rparr>)
          (\<lambda>c i. 0) 0 [64257]) = lit ''IF''"
  by (simp add: eval_defs scramble_word_def scramble_loop.simps shuffle_def)

text \<open>
  Claim C2, amended: for every input word and every sequence of outcomes of the random
  shuffles, \<open>scramble_word\<close> returns a string with the same length and the same multiset
  of characters as the uppercased input; in particular, when the uppercased input has
  length at most 1 it is returned unchanged.
\<close>

theorem scramble_word_permutation:
  "length (fst (scramble_word P g c w)) = length (upper P w)
   \<and> mset (fst (scramble_word P g c w)) = mset (upper P w)
   \<and> (length (upper P w) \<le> 1 \<longrightarrow> fst (scramble_word P g c w) = upper P w)"
proof -
  have m: "mset (fst (scramble_word P g c w)) = mset (upper P w)"
    by (rule scramble_word_mset)
  have "length (fst (scramble_word P g c w)) = length (upper P w)"
    using m by (rule mset_eq_length)
  moreover have "length (upper P w) \<le> 1 \<longrightarrow> fst (scramble_word P g c w) = upper P w"
    by (simp add: scramble_word_def)
  ultimately show ?thesis using m by simp
qed

theorem scramble_word_permutation_witness:
  "length (upper plain (lit ''a'')) \<le> 1 \<and> fst (scramble_word plain (\<lambda>c i. 0) 0 (lit ''a'')) = (lit ''A'')
   \<and> length (fst (scramble_word plain (\<lambda>c i. 0) 0 (lit ''sky''))) = 3
   \<and> mset (fst (scramble_word plain (\<lambda>c i. 0) 0 (lit ''sky''))) = mset (lit ''SKY'')"
proof -
  have u: "upper plain (lit ''a'') = (lit ''A'')" "upper plain (lit ''sky'') = (lit ''SKY'')" by (simp_all add: eval_defs)
  show ?thesis
    using scramble_word_permutation [of plain "\<lambda>c i. 0" 0 "(lit ''a'')"]
      scramble_word_permutation [of plain "\<lambda>c i. 0" 0 "(lit ''sky'')"] u
    by simp
qed

lemma scramble_loop_same:
  "a \<le> 10 \<Longrightarrow> n = 10 - a \<Longrightarrow>
   (fst (scramble_loop g c word word a) = word) = (\<forall>k < n. shuffle (g (c + k)) word = word)"
proof (induction n arbitrary: a c)
  case 0
  then have "a = 10" by simp
  then show ?case by (subst scramble_loop.simps) simp
next
  case (Suc n)
  then have a: "a < 10" and n: "n = 10 - Suc a" and a': "Suc a \<le> 10" by simp_all
  show ?case
  proof (cases "shuffle (g c) word = word")
    case True
    have "fst (scramble_loop g c word word a) = fst (scramble_loop g (Suc c) word word (Suc a))"
      using a True by (subst scramble_loop.simps) simp
    also have "(\<dots> = word) = (\<forall>k < n. shuffle (g (Suc c + k)) word = word)"
      using Suc.IH [OF a' n] .
    also have "\<dots> = (\<forall>k < Suc n. shuffle (g (c + k)) word = word)"
      using True by (auto simp: less_Suc_eq_0_disj)
    finally show ?thesis .
  next
    case False
    have "scramble_loop g c word word a = (shuffle (g c) word, Suc c)"
      using a False by (subst scramble_loop.simps, subst scramble_loop.simps) simp
    then show ?thesis using False by auto
  qed
qed

lemma differing_permutation_length:
  assumes "mset t = mset u" and "t \<noteq> u"
  shows "2 \<le> length u"
proof (rule ccontr)
  assume "\<not> 2 \<le> length u"
  then have l: "length u \<le> 1" by simp
  have "length t = length u" using assms(1) by (rule mset_eq_length)
  with l assms(1) have "t = u"
    by (cases u; cases t) auto
  with assms(2) show False by simp
qed

text \<open>
  Claim C1, as stated: for every word with at least two distinct arrangements of its
  characters and every sequence of shuffle outcomes, \<open>scramble_word\<close> differs from the
  uppercased input. It fails for a palindrome when all ten shuffles reproduce the word:
  the fallback, the reversed word, is the word again.
\<close>

theorem scramble_word_palindrome_counterexample:
  "(\<exists>t. mset t = mset (upper plain (lit ''ABA'')) \<and> t \<noteq> upper plain (lit ''ABA''))
   \<and> fst (scramble_word plain (\<lambda>c i. i) 0 (lit ''ABA'')) = upper plain (lit ''ABA'')"
proof -
  have "mset (lit ''AAB'') = mset (upper plain (lit ''ABA'')) \<and> (lit ''AAB'') \<noteq> upper plain (lit ''ABA'')" by (simp add: eval_defs)
  then have "\<exists>t. mset t = mset (upper plain (lit ''ABA'')) \<and> t \<noteq> upper plain (lit ''ABA'')" by blast
  moreover have "fst (scramble_word plain (\<lambda>c i. i) 0 (lit ''ABA'')) = upper plain (lit ''ABA'')"
    by code_simp
  ultimately show ?thesis by simp
qed

text \<open>
  Claim C1, amended: for every word with at least two distinct arrangements of its
  characters and every sequence of shuffle outcomes, \<open>scramble_word\<close> differs from the
  uppercased input unless each of the ten shuffles reproduces the word and the word
  reads the same reversed; in that one case it returns the word itself.
\<close>

theorem scramble_word_differs:
  assumes "mset t = mset (upper P w)" and "t \<noteq> upper P w"
  shows "(fst (scramble_word P g c w) \<noteq> upper P w)
         = (\<not> ((\<forall>k < 10. shuffle (g (c + k)) (upper P w) = upper P w) \<and> rev (upper P w) = upper P w))"
proof -
  let ?u = "upper P w"
  have len: "\<not> length ?u \<le> 1" using differing_permutation_length [OF assms] by simp
  have same: "(fst (scramble_loop g c ?u ?u 0) = ?u) = (\<forall>k < 10. shuffle (g (c + k)) ?u = ?u)"
    by (rule scramble_loop_same) simp_all
  show ?thesis
    using len same by (auto simp: scramble_word_def Let_def split: prod.splits)
qed

theorem scramble_word_differs_witness:
  "mset (lit ''YKS'') = mset (upper plain (lit ''sky'')) \<and> (lit ''YKS'') \<noteq> upper plain (lit ''sky'')
   \<and> fst (scramble_word plain (\<lambda>c i. 0) 0 (lit ''sky'')) \<noteq> upper plain (lit ''sky'')"
proof -
  have u: "upper plain (lit ''sky'') = (lit ''SKY'')" by (simp add: eval_defs)
  have h1: "mset (lit ''YKS'') = mset (upper plain (lit ''sky''))" unfolding u by (simp add: lit_def)
  have h2: "(lit ''YKS'') \<noteq> upper plain (lit ''sky'')" unfolding u by simp
  have s: "shuffle (\<lambda>i. 0) (upper plain (lit ''sky'')) \<noteq> upper plain (lit ''sky'')" by code_simp
  have "\<not> (\<forall>k < (10::nat). shuffle (\<lambda>i. 0) (upper plain (lit ''sky'')) = upper plain (lit ''sky''))"
    using s by (auto intro: exI [of _ 0])
  then show ?thesis
    using scramble_word_differs [OF h1 h2, of "\<lambda>c i. 0" 0] h1 h2 by blast
qed

section \<open>Properties of the word records\<close>

lemma digit_value_digit_char: "d < 10 \<Longrightarrow> digit_value P (digit_char d) = Some d"
  by (simp add: digit_value_def digit_char_def)

lemma isdigit_digit_char: "d < 10 \<Longrightarrow> isdigit P (digit_char d)"
  by (simp add: isdigit_def digit_value_digit_char)

lemma int_of_digits_snoc:
  "int_of_digits P (s @ [ch])
   = 10 * int_of_digits P s + (case digit_value P ch of Some v \<Rightarrow> v | None \<Rightarrow> 0)"
  by (simp add: int_of_digits_def)

lemma int_of_digits_str_nat: "int_of_digits P (str_nat n) = n"
proof (induction n rule: str_nat.induct)
  case (1 n)
  show ?case
  proof (cases "n < 10")
    case True
    then show ?thesis
      by (subst str_nat.simps) (simp add: int_of_digits_def digit_value_digit_char)
  next
    case False
    then have "int_of_digits P (str_nat (n div 10)) = n div 10" using "1.IH" by simp
    then show ?thesis
      using False
      by (subst str_nat.simps) (simp add: int_of_digits_snoc digit_value_digit_char)
  qed
qed

lemma isdigit_str_nat: "list_all (isdigit P) (str_nat n)"
proof (induction n rule: str_nat.induct)
  case (1 n)
  show ?case
  proof (cases "n < 10")
    case True
    then show ?thesis by (subst str_nat.simps) (simp add: isdigit_digit_char)
  next
    case False
    then show ?thesis
      using "1.IH" by (subst str_nat.simps) (simp add: isdigit_digit_char)
  qed
qed

lemma upper_cp_space: "isspace c \<Longrightarrow> upper_cp P c = [c]"
  by (auto simp: isspace_def upper_cp_def)

lemma upper_blank: "list_all isspace s \<Longrightarrow> upper P s = s"
  by (induction s) (simp_all add: upper_def upper_cp_space)

lemma strip_all_space: "list_all isspace s \<Longrightarrow> strip s = []"
proof -
  assume "list_all isspace s"
  then have d: "dropWhile isspace s = []" by (simp add: list_all_iff)
  show ?thesis unfolding strip_def d by simp
qed

lemma strip_upper_blank: "list_all isspace s \<Longrightarrow> strip (upper P s) = []"
  by (simp add: upper_blank strip_all_space)

lemma scramble_word_Nil: "scramble_word P g c [] = ([], c)"
  by (simp add: scramble_word_def upper_def)

lemma str_nat_0: "str_nat 0 = lit ''0''"
  by (simp add: str_nat.simps digit_char_def lit_def)

lemma source_text_blank:
  assumes "el_text w = None \<or> (\<exists>s. el_text w = Some s \<and> list_all isspace s)"
  shows "source_text P w = []"
proof (cases "el_text w")
  case None
  then show ?thesis by (simp add: source_text_def strip_def upper_def)
next
  case (Some s)
  then show ?thesis using assms by (simp add: source_text_def strip_upper_blank)
qed

lemma build_word_record:
  "el_attrib (fst (build_word P g c w)) =
     [(lit ''original'', source_text P w),
      (lit ''scrambled'', fst (scramble_word P g c (source_text P w))),
      (lit ''startletter'', take 1 (source_text P w)),
      (lit ''firsttwo'', take 2 (source_text P w)),
      (lit ''length'', str_nat (length (source_text P w)))]"
  by (simp add: build_word_def source_text_def Let_def split: prod.splits)

lemma build_word_blank:
  assumes "el_text w = None \<or> (\<exists>s. el_text w = Some s \<and> list_all isspace s)"
  shows "el_attrib (fst (build_word P g c w)) =
           [(lit ''original'', []), (lit ''scrambled'', []), (lit ''startletter'', []),
            (lit ''firsttwo'', []), (lit ''length'', lit ''0'')]"
  by (simp add: build_word_record source_text_blank [OF assms] scramble_word_Nil str_nat_0)

section \<open>Properties of the enricher\<close>

lemma el_attrib_set_tail [simp]: "el_attrib (set_tail t e) = el_attrib e"
  by (simp add: set_tail_def)

lemma el_attrib_indent [simp]: "el_attrib (indent e l) = el_attrib e"
  by (cases e) (simp add: Let_def)

lemma map_attrib_set_tails: "map el_attrib (set_tails j i cs) = map el_attrib cs"
  by (induction j i cs rule: set_tails.induct) simp_all

lemma length_set_tails [simp]: "length (set_tails j i cs) = length cs"
  by (induction j i cs rule: set_tails.induct) simp_all

lemma children_attrib_indent:
  "map el_attrib (el_children (indent e l)) = map el_attrib (el_children e)"
  by (cases e) (simp add: Let_def map_attrib_set_tails comp_def)

lemma isspace_newline_indent: "list_all isspace (newline_indent n)"
proof -
  have "isspace (10)" "isspace (of_char CHR '' '')" by (simp_all add: isspace_def)
  then show ?thesis
    by (induction n) (simp_all add: newline_indent_def lit_def)
qed

lemma blank_newline_indent [simp]: "blank (Some (newline_indent n))"
  by (simp add: blank_def strip_all_space isspace_newline_indent)

lemma unlayout_set_tail [simp]: "unlayout (set_tail t e) = unlayout e"
  by (cases e) (simp add: set_tail_def)

lemma unlayout_set_tails: "map unlayout (set_tails j i cs) = map unlayout cs"
  by (induction j i cs rule: set_tails.induct) simp_all

lemma unlayout_indent: "unlayout (indent e l) = unlayout e"
proof (induction e l rule: indent.induct)
  case (1 tg at tx ta cs level)
  show ?case
  proof (cases "cs = []")
    case True
    then show ?thesis by (simp add: Let_def blank_def)
  next
    case False
    have "map unlayout (map (\<lambda>c. indent c (level + 1)) cs) = map unlayout cs"
      using "1.IH" False by simp
    then show ?thesis
      using False by (simp add: Let_def unlayout_set_tails)
  qed
qed

declare indent.simps [simp del]

lemma iso_key_attrib: "el_attrib p = el_attrib q \<Longrightarrow> iso_key P p = iso_key P q"
  by (simp add: iso_key_def el_get_def)

lemma iso_key_el_pop [simp]: "iso_key P (el_pop (lit ''subscribersonly'') p) = iso_key P p"
  by (simp add: iso_key_def el_get_def el_pop_def)

lemma iso_key_el_set [simp]: "iso_key P (el_set p (lit ''subscribersonly'') v) = iso_key P p"
  by (simp add: iso_key_def el_get_def el_set_def update_conv')

lemma iso_key_unlayout [simp]: "iso_key P (unlayout p) = iso_key P p"
  by (cases p) (simp add: iso_key_def el_get_def)

lemma map_butlast_last:
  assumes "qs \<noteq> []" and "f (h (last qs)) = f (last qs)"
  shows "map f (butlast qs @ [h (last qs)]) = map f qs"
proof -
  have "map f (butlast qs @ [h (last qs)]) = map f (butlast qs @ [last qs])"
    using assms(2) by simp
  then show ?thesis using assms(1) by simp
qed

lemma mark_latest_keys: "map (iso_key P) (mark_latest ps) = map (iso_key P) ps"
proof (cases "ps = []")
  case True
  then show ?thesis by (simp add: mark_latest_def)
next
  case False
  let ?qs = "map (el_pop (lit ''subscribersonly'')) ps"
  have "map (iso_key P) (butlast ?qs @ [el_set (last ?qs) (lit ''subscribersonly'') (lit ''yes'')]) = map (iso_key P) ?qs"
    using False by (intro map_butlast_last) simp_all
  then show ?thesis using False by (simp add: mark_latest_def Let_def comp_def)
qed

lemma length_mark_latest [simp]: "length (mark_latest ps) = length ps"
  by (cases "ps = []") (simp_all add: mark_latest_def Let_def)

lemma build_puzzles_length: "build_puzzles P g c ps = (es, c') \<Longrightarrow> length es = length ps"
  by (induction ps arbitrary: c es c') (auto split: prod.splits)

lemma length_build_puzzles [simp]: "length (fst (build_puzzles P g c ps)) = length ps"
  by (cases "build_puzzles P g c ps") (simp add: build_puzzles_length)

lemma iso_key_map_attrib:
  "map el_attrib ps = map el_attrib qs \<Longrightarrow> map (iso_key P) ps = map (iso_key P) qs"
proof (induction ps arbitrary: qs)
  case Nil
  then show ?case by simp
next
  case (Cons p ps)
  then obtain q qs' where q: "qs = q # qs'" by (cases qs) auto
  have a: "el_attrib p = el_attrib q" and r: "map el_attrib ps = map el_attrib qs'"
    using Cons.prems q by simp_all
  have "iso_key P p = iso_key P q" using a by (rule iso_key_attrib)
  moreover have "map (iso_key P) ps = map (iso_key P) qs'" using r by (rule Cons.IH)
  ultimately show ?case using q by simp
qed

lemma written_keys:
  "map (iso_key P) (el_children (indent (Element (lit ''bees'') [] None None (enriched P g root)) 0))
   = map (iso_key P) (sort_key (iso_key P) (fst (build_puzzles P g 0 (findall root (lit ''puzzle'')))))"
proof -
  let ?E = "enriched P g root"
  have "map el_attrib (el_children (indent (Element (lit ''bees'') [] None None ?E) 0)) = map el_attrib ?E"
    by (simp only: children_attrib_indent element.sel)
  then have "map (iso_key P) (el_children (indent (Element (lit ''bees'') [] None None ?E) 0)) = map (iso_key P) ?E"
    by (rule iso_key_map_attrib)
  also have "\<dots> = map (iso_key P) (sort_key (iso_key P) (fst (build_puzzles P g 0 (findall root (lit ''puzzle'')))))"
    by (simp add: enriched_def mark_latest_keys)
  finally show ?thesis .
qed

lemma iso_key_display_date:
  "iso_key P p = (case strptime_BdY P (display_date p) of Some dt \<Rightarrow> dt | None \<Rightarrow> datetime_min)"
  by (simp add: iso_key_def display_date_def)

lemma iso_key_date_key: "iso_key P p = date_key P (display_date p)"
  by (simp add: iso_key_def display_date_def date_key_def)

lemma display_date_attrib: "el_attrib p = el_attrib q \<Longrightarrow> display_date p = display_date q"
  by (simp add: display_date_def el_get_def)

lemma display_date_map_attrib:
  "map el_attrib ps = map el_attrib qs \<Longrightarrow> map display_date ps = map display_date qs"
proof (induction ps arbitrary: qs)
  case Nil
  then show ?case by simp
next
  case (Cons p ps)
  then obtain q qs' where q: "qs = q # qs'" by (cases qs) auto
  have a: "el_attrib p = el_attrib q" and r: "map el_attrib ps = map el_attrib qs'"
    using Cons.prems q by simp_all
  have "display_date p = display_date q" using a by (rule display_date_attrib)
  moreover have "map display_date ps = map display_date qs'" using r by (rule Cons.IH)
  ultimately show ?case using q by simp
qed

lemma display_date_el_pop [simp]: "display_date (el_pop (lit ''subscribersonly'') p) = display_date p"
  by (simp add: display_date_def el_get_def el_pop_def)

lemma display_date_el_set [simp]: "display_date (el_set p (lit ''subscribersonly'') v) = display_date p"
  by (simp add: display_date_def el_get_def el_set_def update_conv')

lemma mark_latest_dates: "map display_date (mark_latest ps) = map display_date ps"
proof (cases "ps = []")
  case True
  then show ?thesis by (simp add: mark_latest_def)
next
  case False
  let ?qs = "map (el_pop (lit ''subscribersonly'')) ps"
  have "map display_date (butlast ?qs @ [el_set (last ?qs) (lit ''subscribersonly'') (lit ''yes'')])
      = map display_date ?qs"
    using False by (intro map_butlast_last) simp_all
  then show ?thesis using False by (simp add: mark_latest_def Let_def comp_def)
qed

lemma insort_key_map:
  "map f (insort_key (\<lambda>x. k (f x)) x xs) = insort_key k (f x) (map f xs)"
  by (induction xs) simp_all

lemma sort_key_map: "map f (sort_key (\<lambda>x. k (f x)) xs) = sort_key k (map f xs)"
  by (induction xs) (simp_all add: insort_key_map)

lemma sorted_dates: "map display_date (sort_key (iso_key P) ps) = sort_key (date_key P) (map display_date ps)"
proof -
  have h: "iso_key P = (\<lambda>p. date_key P (display_date p))"
    by (rule ext) (rule iso_key_date_key)
  show ?thesis unfolding h by (rule sort_key_map)
qed

lemma build_puzzle_attrib:
  "el_attrib (fst (build_puzzle P g c p)) =
     [(lit ''date'', reformat_date P (el_get p (lit ''date'') [])), (lit ''url'', el_get p (lit ''url'') []),
      (lit ''puzzleid'', el_get p (lit ''puzzleid'') []), (lit ''letters'', el_get p (lit ''letters'') [])]"
  by (simp add: build_puzzle_def Let_def split: prod.splits)

lemma build_puzzle_date:
  "display_date (fst (build_puzzle P g c p)) = reformat_date P (el_get p (lit ''date'') [])"
  by (simp add: display_date_def el_get_def build_puzzle_attrib)

lemma build_puzzles_dates:
  "map display_date (fst (build_puzzles P g c ps)) = map (\<lambda>p. reformat_date P (el_get p (lit ''date'') [])) ps"
proof (induction ps arbitrary: c)
  case Nil
  then show ?case by simp
next
  case (Cons p ps)
  obtain e c1 where e: "build_puzzle P g c p = (e, c1)" by (cases "build_puzzle P g c p")
  obtain es c2 where es: "build_puzzles P g c1 ps = (es, c2)" by (cases "build_puzzles P g c1 ps")
  have "display_date e = reformat_date P (el_get p (lit ''date'') [])"
    using build_puzzle_date [of P g c p] e by simp
  moreover have "map display_date es = map (\<lambda>p. reformat_date P (el_get p (lit ''date'') [])) ps"
    using Cons.IH [of c1] es by simp
  ultimately show ?case using e es by simp
qed

lemma written_dates:
  "map display_date (el_children (indent (Element (lit ''bees'') [] None None (enriched P g root)) 0))
   = sort_key (date_key P) (map (\<lambda>p. reformat_date P (el_get p (lit ''date'') [])) (findall root (lit ''puzzle'')))"
proof -
  let ?E = "enriched P g root"
  have "map el_attrib (el_children (indent (Element (lit ''bees'') [] None None ?E) 0)) = map el_attrib ?E"
    by (simp only: children_attrib_indent element.sel)
  then have "map display_date (el_children (indent (Element (lit ''bees'') [] None None ?E) 0))
           = map display_date ?E"
    by (rule display_date_map_attrib)
  also have "\<dots> = sort_key (date_key P) (map (\<lambda>p. reformat_date P (el_get p (lit ''date'') []))
                      (findall root (lit ''puzzle'')))"
    by (simp only: enriched_def mark_latest_dates sorted_dates build_puzzles_dates)
  finally show ?thesis .
qed

lemma build_beeplus_Created:
  "build_beeplus P g (Some root) = Created (indent (Element (lit ''bees'') [] None None (enriched P g root)) 0)"
  by (simp add: build_beeplus_def)

lemma written_keys_sorted:
  "sorted (map (iso_key P) (el_children (indent (Element (lit ''bees'') [] None None (enriched P g root)) 0)))"
  by (simp only: written_keys sorted_sort_key)

lemma mark_latest_nth:
  assumes "ps \<noteq> []" and "i < length ps"
  shows "mark_latest ps ! i =
           (if i = length ps - 1
            then el_set (el_pop (lit ''subscribersonly'') (last ps)) (lit ''subscribersonly'') (lit ''yes'')
            else el_pop (lit ''subscribersonly'') (ps ! i))"
proof -
  let ?qs = "map (el_pop (lit ''subscribersonly'')) ps"
  have m: "mark_latest ps = butlast ?qs @ [el_set (last ?qs) (lit ''subscribersonly'') (lit ''yes'')]"
    using assms(1) by (simp add: mark_latest_def Let_def)
  have l: "last ?qs = el_pop (lit ''subscribersonly'') (last ps)"
    using assms(1) by (simp add: last_map)
  show ?thesis
  proof (cases "i = length ps - 1")
    case True
    then have "(butlast ?qs @ [el_set (last ?qs) (lit ''subscribersonly'') (lit ''yes'')]) ! i
             = el_set (last ?qs) (lit ''subscribersonly'') (lit ''yes'')"
      by (simp add: nth_append)
    then show ?thesis using True m l by simp
  next
    case False
    then have i: "i < length ps - 1" using assms(2) by simp
    then have "(butlast ?qs @ [el_set (last ?qs) (lit ''subscribersonly'') (lit ''yes'')]) ! i = ?qs ! i"
      by (simp add: nth_append nth_butlast)
    then show ?thesis using False m assms(2) by simp
  qed
qed

lemma mark_latest_flag:
  assumes "ps \<noteq> []" and "i < length ps"
  shows "map_of (el_attrib (mark_latest ps ! i)) (lit ''subscribersonly'')
         = (if i = length ps - 1 then Some (lit ''yes'') else None)"
  using mark_latest_nth [OF assms]
  by (simp add: el_set_def el_pop_def update_conv' delete_conv')

lemma written_attribs:
  "map el_attrib (el_children (indent (Element (lit ''bees'') [] None None E) 0)) = map el_attrib E"
  by (simp only: children_attrib_indent element.sel)

lemma length_enriched: "length (enriched P g root) = length (findall root (lit ''puzzle''))"
  by (simp add: enriched_def)

text \<open>
  Claim C5. The run on an archive that exists never fails; it writes one record for each
  source puzzle, and among the written records exactly the last one carries
  \<open>subscribersonly="yes"\<close>, the others carrying no such attribute; the last record
  has the greatest key of the sorted order. With no puzzle nothing is written or flagged.
  The marking step itself clears a flag that was there before: on any non-empty list of
  records it leaves the flag on the last record and on no other.
\<close>

theorem latest_flagged:
  "(\<exists>out. build_beeplus P g (Some root) = Created out
      \<and> length (el_children out) = length (findall root (lit ''puzzle''))
      \<and> (\<forall>i < length (el_children out).
            map_of (el_attrib (el_children out ! i)) (lit ''subscribersonly'')
            = (if i = length (el_children out) - 1 then Some (lit ''yes'') else None))
      \<and> (\<forall>p \<in> set (el_children out). iso_key P p \<le> iso_key P (last (el_children out))))
   \<and> mark_latest [] = []
   \<and> (\<forall>ps. ps \<noteq> [] \<longrightarrow> length (mark_latest ps) = length ps
         \<and> (\<forall>i < length ps. map_of (el_attrib (mark_latest ps ! i)) (lit ''subscribersonly'')
               = (if i = length ps - 1 then Some (lit ''yes'') else None)))"
proof -
  let ?E = "enriched P g root"
  let ?out = "indent (Element (lit ''bees'') [] None None ?E) 0"
  let ?ps = "el_children ?out"
  have a: "map el_attrib ?ps = map el_attrib ?E" by (rule written_attribs)
  have len: "length ?ps = length ?E" using arg_cong [OF a, of length] by simp
  have len': "length ?ps = length (findall root (lit ''puzzle''))"
    using len by (simp add: length_enriched)
  have flag: "map_of (el_attrib (?ps ! i)) (lit ''subscribersonly'')
            = (if i = length ?ps - 1 then Some (lit ''yes'') else None)" if i: "i < length ?ps" for i
  proof -
    have "el_attrib (?ps ! i) = el_attrib (?E ! i)"
      using arg_cong [OF a, of "\<lambda>xs. xs ! i"] i len by simp
    moreover have "?E = mark_latest (sort_key (iso_key P) (fst (build_puzzles P g 0 (findall root (lit ''puzzle'')))))"
      by (simp add: enriched_def)
    moreover have "sort_key (iso_key P) (fst (build_puzzles P g 0 (findall root (lit ''puzzle'')))) \<noteq> []"
    proof
      assume "sort_key (iso_key P) (fst (build_puzzles P g 0 (findall root (lit ''puzzle'')))) = []"
      then have "length (sort_key (iso_key P) (fst (build_puzzles P g 0 (findall root (lit ''puzzle''))))) = 0"
        by (simp only: list.size)
      then have "length (findall root (lit ''puzzle'')) = 0" by simp
      with i len' show False by simp
    qed
    ultimately show ?thesis
      using mark_latest_flag [of "sort_key (iso_key P) (fst (build_puzzles P g 0 (findall root (lit ''puzzle''))))" i]
        i len' len by simp
  qed
  have s: "sorted (map (iso_key P) ?ps)" by (rule written_keys_sorted)
  have top: "iso_key P p \<le> iso_key P (last ?ps)" if p: "p \<in> set ?ps" for p
  proof -
    obtain i where i: "i < length ?ps" "?ps ! i = p" using p by (auto simp: in_set_conv_nth)
    then have ne: "?ps \<noteq> []" by auto
    have "map (iso_key P) ?ps ! i \<le> map (iso_key P) ?ps ! (length ?ps - 1)"
      using s i(1) by (intro sorted_nth_mono) simp_all
    then show ?thesis using i ne by (simp add: last_conv_nth)
  qed
  have "build_beeplus P g (Some root) = Created ?out" by (rule build_beeplus_Created)
  then have "\<exists>out. build_beeplus P g (Some root) = Created out
      \<and> length (el_children out) = length (findall root (lit ''puzzle''))
      \<and> (\<forall>i < length (el_children out).
            map_of (el_attrib (el_children out ! i)) (lit ''subscribersonly'')
            = (if i = length (el_children out) - 1 then Some (lit ''yes'') else None))
      \<and> (\<forall>p \<in> set (el_children out). iso_key P p \<le> iso_key P (last (el_children out)))"
    using len' flag top by (intro exI [of _ ?out]) blast
  moreover have "mark_latest [] = []" by (simp add: mark_latest_def)
  ultimately show ?thesis using mark_latest_flag by simp
qed

theorem latest_flagged_witness:
  "\<exists>out. build_beeplus plain (\<lambda>c i. 0) (Some (Element (lit ''spelling_bees'') [] None None
            [Element (lit ''puzzle'') [(lit ''date'', (lit ''b''))] None None [],
             Element (lit ''other'') [] None None [],
             Element (lit ''puzzle'') [(lit ''date'', (lit ''a''))] None None []])) = Created out
     \<and> length (el_children out) = 2
     \<and> map_of (el_attrib (el_children out ! 0)) (lit ''subscribersonly'') = None
     \<and> map_of (el_attrib (el_children out ! 1)) (lit ''subscribersonly'') = Some (lit ''yes'')
     \<and> map_of (el_attrib (mark_latest
            [Element (lit ''puzzle'') [(lit ''subscribersonly'', (lit ''yes''))] None None [],
             Element (lit ''puzzle'') [] None None []] ! 0)) (lit ''subscribersonly'') = None
     \<and> map_of (el_attrib (mark_latest
            [Element (lit ''puzzle'') [(lit ''subscribersonly'', (lit ''yes''))] None None [],
             Element (lit ''puzzle'') [] None None []] ! 1)) (lit ''subscribersonly'') = Some (lit ''yes'')"
proof -
  let ?A = "Element (lit ''spelling_bees'') [] None None
            [Element (lit ''puzzle'') [(lit ''date'', (lit ''b''))] None None [],
             Element (lit ''other'') [] None None [],
             Element (lit ''puzzle'') [(lit ''date'', (lit ''a''))] None None []]"
  let ?ps = "[Element (lit ''puzzle'') [(lit ''subscribersonly'', (lit ''yes''))] None None [],
              Element (lit ''puzzle'') [] None None []]"
  note t = latest_flagged [of plain "\<lambda>c i. 0" ?A]
  from t obtain out where o: "build_beeplus plain (\<lambda>c i. 0) (Some ?A) = Created out"
    "length (el_children out) = length (findall ?A (lit ''puzzle''))"
    "\<forall>i < length (el_children out).
        map_of (el_attrib (el_children out ! i)) (lit ''subscribersonly'')
        = (if i = length (el_children out) - 1 then Some (lit ''yes'') else None)"
    by blast
  have l: "length (el_children out) = 2" using o(2) by (simp add: findall_def)
  have f0: "map_of (el_attrib (el_children out ! 0)) (lit ''subscribersonly'') = None"
    using o(3) l by simp
  have f1: "map_of (el_attrib (el_children out ! 1)) (lit ''subscribersonly'') = Some (lit ''yes'')"
    using o(3) l by simp
  from t have m: "\<forall>i < length ?ps. map_of (el_attrib (mark_latest ?ps ! i)) (lit ''subscribersonly'')
               = (if i = length ?ps - 1 then Some (lit ''yes'') else None)"
    by blast
  have m0: "map_of (el_attrib (mark_latest ?ps ! 0)) (lit ''subscribersonly'') = None"
    using m by simp
  have m1: "map_of (el_attrib (mark_latest ?ps ! 1)) (lit ''subscribersonly'') = Some (lit ''yes'')"
    using m by simp
  show ?thesis using o(1) l f0 f1 m0 m1 by (intro exI [of _ out]) simp
qed

lemma el_children_unlayout: "el_children (unlayout e) = map unlayout (el_children e)"
  by (cases e) simp

lemma children_unlayout_indent:
  "map unlayout (el_children (indent e l)) = map unlayout (el_children e)"
  using el_children_unlayout [of "indent e l"] el_children_unlayout [of e]
  by (simp add: unlayout_indent)

lemma unlayout_el_pop: "unlayout (el_pop k p) = el_pop k (unlayout p)"
  by (cases p) (simp add: el_pop_def)

lemma el_pop_el_pop [simp]: "el_pop k (el_pop k p) = el_pop k p"
  by (simp add: el_pop_def delete_idem)

lemma el_pop_el_set [simp]: "el_pop k (el_set p k v) = el_pop k p"
  by (simp add: el_pop_def el_set_def delete_update_same)

lemma mark_latest_core:
  "map (el_pop (lit ''subscribersonly'')) (mark_latest ps) = map (el_pop (lit ''subscribersonly'')) ps"
proof (cases "ps = []")
  case True
  then show ?thesis by (simp add: mark_latest_def)
next
  case False
  let ?qs = "map (el_pop (lit ''subscribersonly'')) ps"
  have "map (el_pop (lit ''subscribersonly''))
          (butlast ?qs @ [el_set (last ?qs) (lit ''subscribersonly'') (lit ''yes'')])
      = map (el_pop (lit ''subscribersonly'')) ?qs"
    using False by (intro map_butlast_last) simp_all
  then show ?thesis using False by (simp add: mark_latest_def Let_def comp_def)
qed

lemma build_puzzle_no_flag:
  "el_pop (lit ''subscribersonly'') (fst (build_puzzle P g c p)) = fst (build_puzzle P g c p)"
  by (simp add: build_puzzle_def Let_def el_pop_def split: prod.splits)

lemma build_puzzles_no_flag:
  "map (el_pop (lit ''subscribersonly'')) (fst (build_puzzles P g c ps)) = fst (build_puzzles P g c ps)"
proof (induction ps arbitrary: c)
  case Nil
  then show ?case by simp
next
  case (Cons p ps)
  obtain e c1 where e: "build_puzzle P g c p = (e, c1)" by (cases "build_puzzle P g c p")
  obtain es c2 where es: "build_puzzles P g c1 ps = (es, c2)" by (cases "build_puzzles P g c1 ps")
  have "el_pop (lit ''subscribersonly'') e = e" using build_puzzle_no_flag [of P g c p] e by simp
  moreover have "map (el_pop (lit ''subscribersonly'')) es = es" using Cons.IH [of c1] es by simp
  ultimately show ?case using e es by simp
qed

lemma build_puzzles_attribs:
  "map el_attrib (fst (build_puzzles P g c ps)) =
     map (\<lambda>p. [(lit ''date'', reformat_date P (el_get p (lit ''date'') [])), (lit ''url'', el_get p (lit ''url'') []),
               (lit ''puzzleid'', el_get p (lit ''puzzleid'') []), (lit ''letters'', el_get p (lit ''letters'') [])]) ps"
proof (induction ps arbitrary: c)
  case Nil
  then show ?case by simp
next
  case (Cons p ps)
  obtain e c1 where e: "build_puzzle P g c p = (e, c1)" by (cases "build_puzzle P g c p")
  obtain es c2 where es: "build_puzzles P g c1 ps = (es, c2)" by (cases "build_puzzles P g c1 ps")
  show ?case
    using build_puzzle_attrib [of P g c p] Cons.IH [of c1] e es by simp
qed

lemma map_el_pop_sort_key:
  "map (el_pop (lit ''subscribersonly'')) (sort_key (iso_key P) ps) = sort_key (iso_key P) (map (el_pop (lit ''subscribersonly'')) ps)"
proof -
  have "sort_key (iso_key P) (map (el_pop (lit ''subscribersonly'')) ps)
      = map (el_pop (lit ''subscribersonly'')) (sort_key (\<lambda>x. iso_key P (el_pop (lit ''subscribersonly'') x)) ps)"
    by (rule sort_key_map [symmetric])
  then show ?thesis by simp
qed

lemma written_core:
  "map (\<lambda>p. unlayout (el_pop (lit ''subscribersonly'') p))
       (el_children (indent (Element (lit ''bees'') [] None None (enriched P g root)) 0))
   = map unlayout (sort_key (iso_key P) (fst (build_puzzles P g 0 (findall root (lit ''puzzle'')))))"
proof -
  let ?k = "(lit ''subscribersonly'')"
  let ?E = "enriched P g root"
  let ?B = "fst (build_puzzles P g 0 (findall root (lit ''puzzle'')))"
  have "map (\<lambda>p. unlayout (el_pop ?k p)) (el_children (indent (Element (lit ''bees'') [] None None ?E) 0))
      = map (el_pop ?k) (map unlayout (el_children (indent (Element (lit ''bees'') [] None None ?E) 0)))"
    by (simp add: unlayout_el_pop)
  also have "\<dots> = map (el_pop ?k) (map unlayout ?E)"
    by (simp only: children_unlayout_indent element.sel)
  also have "\<dots> = map unlayout (map (el_pop ?k) ?E)"
    by (simp add: unlayout_el_pop)
  also have "map (el_pop ?k) ?E = map (el_pop ?k) (sort_key (iso_key P) ?B)"
    by (simp only: enriched_def mark_latest_core)
  also have "\<dots> = sort_key (iso_key P) ?B"
    by (simp only: map_el_pop_sort_key build_puzzles_no_flag)
  finally show ?thesis .
qed

lemma written_filter_key:
  "filter (\<lambda>p. iso_key P p = k)
     (map (\<lambda>p. unlayout (el_pop (lit ''subscribersonly'') p))
        (el_children (indent (Element (lit ''bees'') [] None None (enriched P g root)) 0)))
   = filter (\<lambda>p. iso_key P p = k)
       (map unlayout (fst (build_puzzles P g 0 (findall root (lit ''puzzle'')))))"
proof -
  let ?B = "fst (build_puzzles P g 0 (findall root (lit ''puzzle'')))"
  have "filter (\<lambda>p. iso_key P p = k) (map unlayout (sort_key (iso_key P) ?B))
      = map unlayout (filter (\<lambda>p. iso_key P p = k) (sort_key (iso_key P) ?B))"
    by (simp add: filter_map comp_def)
  also have "\<dots> = map unlayout (filter (\<lambda>p. iso_key P p = k) ?B)"
    by (simp only: sort_key_stable)
  also have "\<dots> = filter (\<lambda>p. iso_key P p = k) (map unlayout ?B)"
    by (simp add: filter_map comp_def)
  finally show ?thesis by (simp only: written_core)
qed

text \<open>
  Claim C4, as stated: the written records are sorted by the re-parsed display date, a
  record whose display date fails to parse having the minimum date as its key, and
  therefore standing before all records with a parseable date. The last part fails
  for a display date that parses to the minimum date itself: the two keys tie, and the
  stable sort leaves the unparseable record after the parseable one.
\<close>

theorem unparseable_after_parseable_counterexample:
  "\<exists>out. build_beeplus plain (\<lambda>c i. 0) (Some (Element (lit ''spelling_bees'') [] None None
            [Element (lit ''puzzle'') [(lit ''date'', (lit ''January 01, 0001''))] None None [],
             Element (lit ''puzzle'') [(lit ''date'', (lit ''garbage''))] None None []])) = Created out
     \<and> map display_date (el_children out) = [(lit ''January 01, 0001''), (lit ''garbage'')]
     \<and> strptime_BdY plain (lit ''January 01, 0001'') = Some (1, 1, 1)
     \<and> strptime_BdY plain (lit ''garbage'') = None"
proof -
  let ?A = "Element (lit ''spelling_bees'') [] None None
            [Element (lit ''puzzle'') [(lit ''date'', (lit ''January 01, 0001''))] None None [],
             Element (lit ''puzzle'') [(lit ''date'', (lit ''garbage''))] None None []]"
  let ?out = "indent (Element (lit ''bees'') [] None None (enriched plain (\<lambda>c i. 0) ?A)) 0"
  have r: "reformat_date plain (lit ''January 01, 0001'') = (lit ''January 01, 0001'')"
    "reformat_date plain (lit ''garbage'') = (lit ''garbage'')"
    by (simp_all add: eval_defs)
  have p0: "strptime_BdY plain (lit ''January 01, 0001'') = Some (1, 1, 1)" by (simp add: eval_defs)
  have p1: "strptime_BdY plain (lit ''garbage'') = None" by (simp add: eval_defs)
  have "map display_date (el_children ?out) = [(lit ''January 01, 0001''), (lit ''garbage'')]"
    by (simp only: written_dates)
       (simp add: findall_def el_get_def r date_key_def p0 p1 datetime_min_def)
  moreover have "build_beeplus plain (\<lambda>c i. 0) (Some ?A) = Created ?out"
    by (rule build_beeplus_Created)
  ultimately show ?thesis using p0 p1 by (intro exI [of _ ?out]) simp
qed

text \<open>
  Claim C4, amended: for every raw archive the written records are sorted ascending by
  \<open>iso_key\<close>, the display date parsed with the format "Month DD, YYYY", where a record
  whose display date fails to parse has the minimum date as its key; such a record
  therefore stands before every record whose display date parses to a date later than
  the minimum date. With a record whose date is the minimum date itself it ties, and
  records with equal keys, whatever the key, keep the order of the source archive:
  for every key, the written records with that key (layout and flag aside) are the
  records built from the source puzzles with that key, in source order.
\<close>

theorem written_sorted:
  assumes "build_beeplus P g (Some root) = Created out"
  shows "sorted (map (iso_key P) (el_children out))
       \<and> (\<forall>p \<in> set (el_children out).
            strptime_BdY P (display_date p) = None \<longrightarrow> iso_key P p = datetime_min)
       \<and> (\<forall>p \<in> set (el_children out). \<forall>dt.
            strptime_BdY P (display_date p) = Some dt \<longrightarrow> iso_key P p = dt)
       \<and> (\<forall>i j. i < length (el_children out) \<and> j < length (el_children out)
             \<and> strptime_BdY P (display_date (el_children out ! i)) = None
             \<and> datetime_min < iso_key P (el_children out ! j) \<longrightarrow> i < j)
       \<and> (\<forall>k. filter (\<lambda>p. iso_key P p = k)
                (map (\<lambda>p. unlayout (el_pop (lit ''subscribersonly'') p)) (el_children out))
              = filter (\<lambda>p. iso_key P p = k)
                  (map unlayout (fst (build_puzzles P g 0 (findall root (lit ''puzzle''))))))"
proof -
  let ?ps = "el_children out"
  have out: "out = indent (Element (lit ''bees'') [] None None (enriched P g root)) 0"
    using assms by (simp add: build_beeplus_def)
  have s: "sorted (map (iso_key P) ?ps)"
    unfolding out by (rule written_keys_sorted)
  have before: "i < j"
    if "i < length ?ps" "j < length ?ps" "strptime_BdY P (display_date (?ps ! i)) = None"
      "datetime_min < iso_key P (?ps ! j)" for i j
  proof (rule ccontr)
    assume "\<not> i < j"
    then have "j \<le> i" by simp
    then have "map (iso_key P) ?ps ! j \<le> map (iso_key P) ?ps ! i"
      using s that(1) by (simp add: sorted_iff_nth_mono)
    then have "iso_key P (?ps ! j) \<le> iso_key P (?ps ! i)" using that(1,2) by simp
    moreover have "iso_key P (?ps ! i) = datetime_min"
      using that(3) by (simp add: iso_key_display_date)
    ultimately show False using that(4) by simp
  qed
  have ties: "\<forall>k. filter (\<lambda>p. iso_key P p = k)
                (map (\<lambda>p. unlayout (el_pop (lit ''subscribersonly'') p)) (el_children out))
              = filter (\<lambda>p. iso_key P p = k)
                  (map unlayout (fst (build_puzzles P g 0 (findall root (lit ''puzzle'')))))"
    unfolding out by (simp only: written_filter_key simp_thms)
  have "sorted (map (iso_key P) (el_children out))
       \<and> (\<forall>p \<in> set (el_children out).
            strptime_BdY P (display_date p) = None \<longrightarrow> iso_key P p = datetime_min)
       \<and> (\<forall>p \<in> set (el_children out). \<forall>dt.
            strptime_BdY P (display_date p) = Some dt \<longrightarrow> iso_key P p = dt)
       \<and> (\<forall>i j. i < length (el_children out) \<and> j < length (el_children out)
             \<and> strptime_BdY P (display_date (el_children out ! i)) = None
             \<and> datetime_min < iso_key P (el_children out ! j) \<longrightarrow> i < j)"
    using s before by (auto simp: iso_key_display_date)
  then show ?thesis using ties by blast
qed

theorem written_sorted_witness:
  "\<exists>out. build_beeplus plain (\<lambda>c i. 0) (Some (Element (lit ''spelling_bees'') [] None None
            [Element (lit ''puzzle'') [(lit ''date'', (lit ''2024-03-01''))] None None [],
             Element (lit ''puzzle'') [(lit ''date'', (lit ''garbage''))] None None [],
             Element (lit ''puzzle'') [(lit ''date'', (lit ''2024-01-05''))] None None []])) = Created out
     \<and> map display_date (el_children out) = [(lit ''garbage''), (lit ''January 05, 2024''), (lit ''March 01, 2024'')]
     \<and> sorted (map (iso_key plain) (el_children out))
     \<and> iso_key plain (el_children out ! 0) = datetime_min
     \<and> iso_key plain (el_children out ! 1) = (2024, 1, 5)
     \<and> (0 :: nat) < 1"
proof -
  let ?A = "Element (lit ''spelling_bees'') [] None None
            [Element (lit ''puzzle'') [(lit ''date'', (lit ''2024-03-01''))] None None [],
             Element (lit ''puzzle'') [(lit ''date'', (lit ''garbage''))] None None [],
             Element (lit ''puzzle'') [(lit ''date'', (lit ''2024-01-05''))] None None []]"
  define out where "out = indent (Element (lit ''bees'') [] None None (enriched plain (\<lambda>c i. 0) ?A)) 0"
  have b: "build_beeplus plain (\<lambda>c i. 0) (Some ?A) = Created out"
    unfolding out_def by (rule build_beeplus_Created)
  have r: "reformat_date plain (lit ''2024-03-01'') = (lit ''March 01, 2024'')"
    "reformat_date plain (lit ''garbage'') = (lit ''garbage'')"
    "reformat_date plain (lit ''2024-01-05'') = (lit ''January 05, 2024'')"
    by (simp_all add: eval_defs)
  have p0: "strptime_BdY plain (lit ''garbage'') = None" by (simp add: eval_defs)
  have p1: "strptime_BdY plain (lit ''January 05, 2024'') = Some (2024, 1, 5)" by (simp add: eval_defs)
  have p2: "strptime_BdY plain (lit ''March 01, 2024'') = Some (2024, 3, 1)" by (simp add: eval_defs)
  have e: "map display_date (el_children out) = [(lit ''garbage''), (lit ''January 05, 2024''), (lit ''March 01, 2024'')]"
    unfolding out_def
    by (simp only: written_dates)
       (simp add: findall_def el_get_def r date_key_def p0 p1 p2 datetime_min_def)
  have l: "length (el_children out) = 3"
    using arg_cong [OF e, of length] by simp
  have d0: "display_date (el_children out ! 0) = (lit ''garbage'')"
    using arg_cong [OF e, of "\<lambda>xs. xs ! 0"] l by simp
  have d1: "display_date (el_children out ! 1) = (lit ''January 05, 2024'')"
    using arg_cong [OF e, of "\<lambda>xs. xs ! 1"] l by simp
  have m0: "el_children out ! 0 \<in> set (el_children out)"
    and m1: "el_children out ! 1 \<in> set (el_children out)"
    using l by simp_all
  note t = written_sorted [OF b]
  have "sorted (map (iso_key plain) (el_children out))" using t by blast
  moreover have "iso_key plain (el_children out ! 0) = datetime_min"
    using t m0 d0 p0 by simp
  moreover have "iso_key plain (el_children out ! 1) = (2024, 1, 5)"
    using t m1 d1 p1 by simp
  ultimately show ?thesis using b e by (intro exI [of _ out]) simp
qed

text \<open>
  Claim C9. The chronological sort is stable: for every key \<open>k\<close>, the minimum date
  shared by the records whose display date fails to parse included, the written records
  with key \<open>k\<close> are the records built from the source puzzles with key \<open>k\<close>, in the
  order of the source archive (records compared with layout and flag aside). The built
  records stand in source order: the attributes of the \<open>i\<close>-th are those of the
  \<open>i\<close>-th source puzzle, its date reformatted.
\<close>

theorem sort_stable:
  assumes "build_beeplus P g (Some root) = Created out"
  shows "filter (\<lambda>p. iso_key P p = k)
           (map (\<lambda>p. unlayout (el_pop (lit ''subscribersonly'') p)) (el_children out))
         = filter (\<lambda>p. iso_key P p = k)
             (map unlayout (fst (build_puzzles P g 0 (findall root (lit ''puzzle'')))))
       \<and> map el_attrib (fst (build_puzzles P g 0 (findall root (lit ''puzzle'')))) =
           map (\<lambda>p. [(lit ''date'', reformat_date P (el_get p (lit ''date'') [])),
                     (lit ''url'', el_get p (lit ''url'') []),
                     (lit ''puzzleid'', el_get p (lit ''puzzleid'') []),
                     (lit ''letters'', el_get p (lit ''letters'') [])]) (findall root (lit ''puzzle''))"
proof -
  let ?B = "fst (build_puzzles P g 0 (findall root (lit ''puzzle'')))"
  have out: "out = indent (Element (lit ''bees'') [] None None (enriched P g root)) 0"
    using assms by (simp add: build_beeplus_def)
  have "filter (\<lambda>p. iso_key P p = k)
           (map (\<lambda>p. unlayout (el_pop (lit ''subscribersonly'') p)) (el_children out))
      = filter (\<lambda>p. iso_key P p = k) (map unlayout (sort_key (iso_key P) ?B))"
    unfolding out by (simp only: written_core)
  also have "\<dots> = map unlayout (filter (\<lambda>p. iso_key P p = k) (sort_key (iso_key P) ?B))"
    by (simp add: filter_map comp_def)
  also have "\<dots> = map unlayout (filter (\<lambda>p. iso_key P p = k) ?B)"
    by (simp only: sort_key_stable)
  also have "\<dots> = filter (\<lambda>p. iso_key P p = k) (map unlayout ?B)"
    by (simp add: filter_map comp_def)
  finally show ?thesis by (simp add: build_puzzles_attribs)
qed

lemma display_date_unlayout [simp]: "display_date (unlayout p) = display_date p"
  by (cases p) (simp add: display_date_def el_get_def)

lemma filter_key_dates:
  "map display_date (filter (\<lambda>p. iso_key P p = k) xs)
   = filter (\<lambda>d. date_key P d = k) (map display_date xs)"
  by (induction xs) (simp_all add: iso_key_date_key)

theorem sort_stable_witness:
  "\<exists>out. build_beeplus plain (\<lambda>c i. 0) (Some (Element (lit ''spelling_bees'') [] None None
            [Element (lit ''puzzle'') [(lit ''date'', (lit ''b''))] None None [],
             Element (lit ''puzzle'') [(lit ''date'', (lit ''a''))] None None []])) = Created out
     \<and> map display_date (el_children out) = [(lit ''b''), (lit ''a'')]
     \<and> map display_date (filter (\<lambda>p. iso_key plain p = datetime_min)
           (map (\<lambda>p. unlayout (el_pop (lit ''subscribersonly'') p)) (el_children out))) = [(lit ''b''), (lit ''a'')]"
proof -
  let ?A = "Element (lit ''spelling_bees'') [] None None
            [Element (lit ''puzzle'') [(lit ''date'', (lit ''b''))] None None [],
             Element (lit ''puzzle'') [(lit ''date'', (lit ''a''))] None None []]"
  define out where "out = indent (Element (lit ''bees'') [] None None (enriched plain (\<lambda>c i. 0) ?A)) 0"
  have b: "build_beeplus plain (\<lambda>c i. 0) (Some ?A) = Created out"
    unfolding out_def by (rule build_beeplus_Created)
  have r: "reformat_date plain (lit ''b'') = (lit ''b'')" "reformat_date plain (lit ''a'') = (lit ''a'')" by (simp_all add: eval_defs)
  have p: "strptime_BdY plain (lit ''b'') = None" "strptime_BdY plain (lit ''a'') = None" by (simp_all add: eval_defs)
  have k: "date_key plain (lit ''b'') = datetime_min" "date_key plain (lit ''a'') = datetime_min"
    by (simp_all add: date_key_def p)
  have e: "map display_date (el_children out) = [(lit ''b''), (lit ''a'')]"
    unfolding out_def
    by (simp only: written_dates) (simp add: findall_def el_get_def r k)
  have d: "map display_date (fst (build_puzzles plain (\<lambda>c i. 0) 0 (findall ?A (lit ''puzzle'')))) = [(lit ''b''), (lit ''a'')]"
    by (simp only: build_puzzles_dates) (simp add: findall_def el_get_def r)
  have "map display_date (filter (\<lambda>p. iso_key plain p = datetime_min)
           (map (\<lambda>p. unlayout (el_pop (lit ''subscribersonly'') p)) (el_children out)))
      = map display_date (filter (\<lambda>p. iso_key plain p = datetime_min)
           (map unlayout (fst (build_puzzles plain (\<lambda>c i. 0) 0 (findall ?A (lit ''puzzle''))))))"
    using sort_stable [OF b, of datetime_min] by simp
  also have "\<dots> = filter (\<lambda>d. date_key plain d = datetime_min)
           (map display_date (fst (build_puzzles plain (\<lambda>c i. 0) 0 (findall ?A (lit ''puzzle'')))))"
    by (simp only: filter_key_dates) (simp add: comp_def)
  also have "\<dots> = [(lit ''b''), (lit ''a'')]"
    unfolding d by (simp add: k)
  finally show ?thesis using b e by (intro exI [of _ out]) simp
qed

section \<open>The word records of the written archive\<close>

lemma el_tag_unlayout [simp]: "el_tag (unlayout e) = el_tag e"
  by (cases e) simp

lemma el_attrib_unlayout [simp]: "el_attrib (unlayout e) = el_attrib e"
  by (cases e) simp

lemma findall_unlayout: "findall (unlayout q) tg = map unlayout (findall q tg)"
  by (simp add: findall_def el_children_unlayout filter_map comp_def)

lemma word_attribs_unlayout:
  "map el_attrib (word_records (unlayout q)) = map el_attrib (word_records q)"
proof -
  have "word_records (unlayout q) = map unlayout (word_records q)"
    by (simp add: word_records_def findall_unlayout map_concat comp_def el_children_unlayout)
  then show ?thesis by (simp add: comp_def)
qed

lemma word_records_el_pop: "word_records (el_pop k q) = word_records q"
  by (simp add: word_records_def findall_def el_pop_def)

lemma written_word_attribs:
  "map (\<lambda>q. map el_attrib (word_records q))
     (el_children (indent (Element (lit ''bees'') [] None None (enriched P g root)) 0))
   = map (\<lambda>q. map el_attrib (word_records q))
       (sort_key (iso_key P) (fst (build_puzzles P g 0 (findall root (lit ''puzzle'')))))"
proof -
  let ?ps = "el_children (indent (Element (lit ''bees'') [] None None (enriched P g root)) 0)"
  let ?S = "sort_key (iso_key P) (fst (build_puzzles P g 0 (findall root (lit ''puzzle''))))"
  have "map (\<lambda>q. map el_attrib (word_records q)) ?ps
      = map (\<lambda>q. map el_attrib (word_records q))
          (map (\<lambda>p. unlayout (el_pop (lit ''subscribersonly'') p)) ?ps)"
    by (simp add: comp_def word_attribs_unlayout word_records_el_pop)
  also have "\<dots> = map (\<lambda>q. map el_attrib (word_records q)) (map unlayout ?S)"
    by (simp only: written_core)
  also have "\<dots> = map (\<lambda>q. map el_attrib (word_records q)) ?S"
    by (simp add: comp_def word_attribs_unlayout)
  finally show ?thesis .
qed

lemma copy_letter_tag: "e \<in> set (copy_letter p i) \<Longrightarrow> el_tag e \<noteq> lit ''words''"
  by (auto simp: copy_letter_def Let_def lit_def split: option.splits if_splits)

lemma build_puzzle_records:
  "word_records (fst (build_puzzle P g c p)) = fst (build_words P g c (findall p (lit ''word'')))"
proof -
  have "filter (\<lambda>e. el_tag e = lit ''words'') (concat (map (copy_letter p) [1 ..< 8])) = []"
    by (auto simp: filter_empty_conv dest: copy_letter_tag)
  then show ?thesis
    by (simp add: build_puzzle_def word_records_def findall_def Let_def split: prod.splits)
qed

lemma build_words_rel:
  assumes "\<And>c w. Ra w (el_attrib (fst (build_word P g c w)))"
  shows "list_all2 (\<lambda>w r. Ra w (el_attrib r)) ws (fst (build_words P g c ws))"
proof (induction ws arbitrary: c)
  case Nil
  then show ?case by simp
next
  case (Cons w ws)
  obtain e c1 where e: "build_word P g c w = (e, c1)" by (cases "build_word P g c w")
  obtain es c2 where es: "build_words P g c1 ws = (es, c2)" by (cases "build_words P g c1 ws")
  have "Ra w (el_attrib e)" using assms [of w c] e by simp
  moreover have "list_all2 (\<lambda>w r. Ra w (el_attrib r)) ws es" using Cons.IH [of c1] es by simp
  ultimately show ?case using e es by simp
qed

lemma build_puzzles_rel:
  assumes "\<And>c p. Rp p (fst (build_puzzle P g c p))"
  shows "list_all2 Rp ps (fst (build_puzzles P g c ps))"
proof (induction ps arbitrary: c)
  case Nil
  then show ?case by simp
next
  case (Cons p ps)
  obtain e c1 where e: "build_puzzle P g c p = (e, c1)" by (cases "build_puzzle P g c p")
  obtain es c2 where es: "build_puzzles P g c1 ps = (es, c2)" by (cases "build_puzzles P g c1 ps")
  have "Rp p e" using assms [of p c] e by simp
  moreover have "list_all2 Rp ps es" using Cons.IH [of c1] es by simp
  ultimately show ?case using e es by simp
qed

lemma list_all2_insort_key:
  "R x y \<Longrightarrow> list_all2 R xs ys \<Longrightarrow>
   \<exists>xs'. mset xs' = add_mset x (mset xs) \<and> list_all2 R xs' (insort_key f y ys)"
proof (induction ys arbitrary: xs)
  case Nil
  have "mset [x] = add_mset x (mset xs) \<and> list_all2 R [x] (insort_key f y [])"
    using Nil by simp
  then show ?case by blast
next
  case (Cons z zs)
  from Cons.prems(2) obtain w ws where xs: "xs = w # ws" and w: "R w z"
    and ws: "list_all2 R ws zs"
    by (auto simp: list_all2_Cons2)
  show ?case
  proof (cases "f y \<le> f z")
    case True
    then have "mset (x # xs) = add_mset x (mset xs)
             \<and> list_all2 R (x # xs) (insort_key f y (z # zs))"
      using Cons.prems by simp
    then show ?thesis by blast
  next
    case False
    obtain ws' where ws': "mset ws' = add_mset x (mset ws)"
      "list_all2 R ws' (insort_key f y zs)"
      using Cons.IH [OF Cons.prems(1) ws] by blast
    have "mset (w # ws') = add_mset x (mset xs)
        \<and> list_all2 R (w # ws') (insort_key f y (z # zs))"
      using False w ws' xs by simp
    then show ?thesis by blast
  qed
qed

lemma list_all2_sort_key:
  "list_all2 R xs ys \<Longrightarrow> \<exists>xs'. mset xs' = mset xs \<and> list_all2 R xs' (sort_key f ys)"
proof (induction ys arbitrary: xs)
  case Nil
  have "mset ([] :: 'a list) = mset xs \<and> list_all2 R [] (sort_key f [])"
    using Nil by simp
  then show ?case by blast
next
  case (Cons y ys)
  from Cons.prems obtain x xs0 where xs: "xs = x # xs0" and x: "R x y"
    and r: "list_all2 R xs0 ys"
    by (auto simp: list_all2_Cons2)
  obtain xs1 where xs1: "mset xs1 = mset xs0" "list_all2 R xs1 (sort_key f ys)"
    using Cons.IH [OF r] by blast
  obtain xs2 where "mset xs2 = add_mset x (mset xs1)"
    "list_all2 R xs2 (insort_key f y (sort_key f ys))"
    using list_all2_insort_key [OF x xs1(2)] by blast
  then have "mset xs2 = mset xs \<and> list_all2 R xs2 (sort_key f (y # ys))"
    using xs xs1(1) by simp
  then show ?case by blast
qed

lemma take1_hd: "t \<noteq> [] \<Longrightarrow> take (Suc 0) t = [hd t]"
  by (cases t) simp_all

lemma written_records_rel:
  assumes "\<And>c w. Ra w (el_attrib (fst (build_word P g c w)))"
  shows "\<exists>src. mset src = mset (findall root (lit ''puzzle''))
          \<and> list_all2 (\<lambda>p q. list_all2 (\<lambda>w r. Ra w (el_attrib r))
                          (findall p (lit ''word'')) (word_records q))
              src (el_children (indent (Element (lit ''bees'') [] None None (enriched P g root)) 0))"
proof -
  let ?ps = "el_children (indent (Element (lit ''bees'') [] None None (enriched P g root)) 0)"
  let ?B = "fst (build_puzzles P g 0 (findall root (lit ''puzzle'')))"
  let ?wa = "\<lambda>q. map el_attrib (word_records q)"
  let ?Rp = "\<lambda>p q. list_all2 (\<lambda>w r. Ra w (el_attrib r)) (findall p (lit ''word'')) (word_records q)"
  have "list_all2 ?Rp (findall root (lit ''puzzle'')) ?B"
  proof (rule build_puzzles_rel)
    fix c p
    show "?Rp p (fst (build_puzzle P g c p))"
      unfolding build_puzzle_records using assms by (rule build_words_rel)
  qed
  then obtain src where src: "mset src = mset (findall root (lit ''puzzle''))"
    "list_all2 ?Rp src (sort_key (iso_key P) ?B)"
    using list_all2_sort_key by blast
  have "list_all2 (\<lambda>p a. list_all2 Ra (findall p (lit ''word'')) a) src
          (map ?wa (sort_key (iso_key P) ?B))"
    using src(2) by (simp add: list_all2_map2)
  then have "list_all2 (\<lambda>p a. list_all2 Ra (findall p (lit ''word'')) a) src (map ?wa ?ps)"
    by (simp only: written_word_attribs)
  then have "list_all2 ?Rp src ?ps" by (simp add: list_all2_map2)
  then show ?thesis using src(1) by blast
qed

text \<open>
  Claim C3. The enricher writes the source puzzles in some order (the sort has moved
  them), and for each of them one word record for each of its word elements, in order;
  with \<open>txt\<close> the text of the word element uppercased and trimmed, the record has
  \<open>original = txt\<close>, \<open>startletter\<close> the first character of \<open>txt\<close> (the slice \<open>txt[:1]\<close>),
  \<open>firsttwo\<close> the first two characters of \<open>txt\<close> (all of \<open>txt\<close> when it is shorter), and
  \<open>length\<close> the decimal string of the number of characters of \<open>txt\<close>, a string of digits
  that reads back as that number.
\<close>

theorem written_word_records:
  assumes "build_beeplus P g (Some root) = Created out"
  shows "\<exists>src. mset src = mset (findall root (lit ''puzzle''))
          \<and> list_all2 (\<lambda>p q. list_all2 (\<lambda>w r.
                 attr r ''original'' = Some (source_text P w)
               \<and> attr r ''startletter'' = Some (take 1 (source_text P w))
               \<and> (source_text P w \<noteq> [] \<longrightarrow> attr r ''startletter'' = Some [hd (source_text P w)])
               \<and> attr r ''firsttwo'' = Some (take 2 (source_text P w))
               \<and> (length (source_text P w) < 2 \<longrightarrow> attr r ''firsttwo'' = Some (source_text P w))
               \<and> attr r ''length'' = Some (str_nat (length (source_text P w)))
               \<and> list_all (isdigit P) (str_nat (length (source_text P w)))
               \<and> int_of_digits P (str_nat (length (source_text P w))) = length (source_text P w))
               (findall p (lit ''word'')) (word_records q))
              src (el_children out)"
proof -
  have out: "out = indent (Element (lit ''bees'') [] None None (enriched P g root)) 0"
    using assms by (simp add: build_beeplus_def)
  show ?thesis
    unfolding out attr_def
    by (rule written_records_rel)
       (simp add: build_word_record isdigit_str_nat int_of_digits_str_nat take1_hd)
qed

theorem written_word_records_witness:
  "\<exists>out q r1 r2.
     build_beeplus plain (\<lambda>c i. 0) (Some (Element (lit ''spelling_bees'') [] None None
       [Element (lit ''puzzle'') [(lit ''date'', lit ''2024-01-05'')] None None
         [Element (lit ''word'') [] (Some (lit '' sky '')) None [],
          Element (lit ''word'') [] (Some (lit ''a'')) None []]])) = Created out
   \<and> el_children out = [q] \<and> word_records q = [r1, r2]
   \<and> attr r1 ''original'' = Some (lit ''SKY'') \<and> attr r1 ''startletter'' = Some (lit ''S'')
   \<and> attr r1 ''firsttwo'' = Some (lit ''SK'') \<and> attr r1 ''length'' = Some (lit ''3'')
   \<and> attr r2 ''original'' = Some (lit ''A'') \<and> attr r2 ''startletter'' = Some (lit ''A'')
   \<and> attr r2 ''firsttwo'' = Some (lit ''A'') \<and> attr r2 ''length'' = Some (lit ''1'')"
proof -
  let ?w1 = "Element (lit ''word'') [] (Some (lit '' sky '')) None []"
  let ?w2 = "Element (lit ''word'') [] (Some (lit ''a'')) None []"
  let ?p = "Element (lit ''puzzle'') [(lit ''date'', lit ''2024-01-05'')] None None [?w1, ?w2]"
  let ?root = "Element (lit ''spelling_bees'') [] None None [?p]"
  let ?out = "indent (Element (lit ''bees'') [] None None (enriched plain (\<lambda>c i. 0) ?root)) 0"
  have c: "build_beeplus plain (\<lambda>c i. 0) (Some ?root) = Created ?out"
    by (rule build_beeplus_Created)
  have pw: "findall ?root (lit ''puzzle'') = [?p]" by (simp add: findall_def lit_def)
  have ww: "findall ?p (lit ''word'') = [?w1, ?w2]" by (simp add: findall_def lit_def)
  have s1: "source_text plain ?w1 = lit ''SKY''" by (simp add: source_text_def eval_defs)
  have s2: "source_text plain ?w2 = lit ''A''" by (simp add: source_text_def eval_defs)
  have n: "str_nat (Suc (Suc (Suc 0))) = lit ''3''" "str_nat (Suc 0) = lit ''1''"
    by (simp_all add: eval_defs)
  have t: "take (Suc 0) (lit ''SKY'') = lit ''S''" "take 2 (lit ''SKY'') = lit ''SK''"
    "take (Suc 0) (lit ''A'') = lit ''A''" "take 2 (lit ''A'') = lit ''A''"
    by (simp_all add: lit_def)
  have "\<exists>q r1 r2. el_children ?out = [q] \<and> word_records q = [r1, r2]
   \<and> attr r1 ''original'' = Some (lit ''SKY'') \<and> attr r1 ''startletter'' = Some (lit ''S'')
   \<and> attr r1 ''firsttwo'' = Some (lit ''SK'') \<and> attr r1 ''length'' = Some (lit ''3'')
   \<and> attr r2 ''original'' = Some (lit ''A'') \<and> attr r2 ''startletter'' = Some (lit ''A'')
   \<and> attr r2 ''firsttwo'' = Some (lit ''A'') \<and> attr r2 ''length'' = Some (lit ''1'')"
    using written_word_records [OF c] unfolding pw
    by (auto simp: list_all2_Cons1 ww s1 s2 n t)
  then show ?thesis using c by blast
qed

text \<open>
  Claim C10. A word element whose text is absent or consists of white space only does
  not make the enricher fail: the run returns its output, in which the source puzzles
  stand in some order, each with one word record for each of its word elements, and
  the record of such a word element has exactly the attributes \<open>original\<close>, \<open>scrambled\<close>,
  \<open>startletter\<close> and \<open>firsttwo\<close>, all empty, and \<open>length\<close> equal to \<open>0\<close>.
\<close>

theorem written_blank_records:
  "\<exists>out src. build_beeplus P g (Some root) = Created out
      \<and> mset src = mset (findall root (lit ''puzzle''))
      \<and> list_all2 (\<lambda>p q. list_all2 (\<lambda>w r.
             (el_text w = None \<or> (\<exists>s. el_text w = Some s \<and> list_all isspace s)) \<longrightarrow>
             el_attrib r = [(lit ''original'', []), (lit ''scrambled'', []),
                            (lit ''startletter'', []), (lit ''firsttwo'', []),
                            (lit ''length'', lit ''0'')])
             (findall p (lit ''word'')) (word_records q))
          src (el_children out)"
proof -
  let ?out = "indent (Element (lit ''bees'') [] None None (enriched P g root)) 0"
  have "\<exists>src. mset src = mset (findall root (lit ''puzzle''))
      \<and> list_all2 (\<lambda>p q. list_all2 (\<lambda>w r.
             (el_text w = None \<or> (\<exists>s. el_text w = Some s \<and> list_all isspace s)) \<longrightarrow>
             el_attrib r = [(lit ''original'', []), (lit ''scrambled'', []),
                            (lit ''startletter'', []), (lit ''firsttwo'', []),
                            (lit ''length'', lit ''0'')])
             (findall p (lit ''word'')) (word_records q))
          src (el_children ?out)"
    by (rule written_records_rel) (simp add: build_word_blank)
  moreover have "build_beeplus P g (Some root) = Created ?out" by (rule build_beeplus_Created)
  ultimately show ?thesis by blast
qed

theorem written_blank_records_witness:
  "\<exists>out q r1 r2.
     build_beeplus plain (\<lambda>c i. 0) (Some (Element (lit ''spelling_bees'') [] None None
       [Element (lit ''puzzle'') [(lit ''date'', lit ''2024-01-05'')] None None
         [Element (lit ''word'') [] None None [],
          Element (lit ''word'') [] (Some [160, 9, 32]) None []]])) = Created out
   \<and> el_children out = [q] \<and> word_records q = [r1, r2]
   \<and> el_attrib r1 = [(lit ''original'', []), (lit ''scrambled'', []),
                     (lit ''startletter'', []), (lit ''firsttwo'', []),
                     (lit ''length'', lit ''0'')]
   \<and> el_attrib r2 = [(lit ''original'', []), (lit ''scrambled'', []),
                     (lit ''startletter'', []), (lit ''firsttwo'', []),
                     (lit ''length'', lit ''0'')]"
proof -
  let ?w1 = "Element (lit ''word'') [] None None []"
  let ?w2 = "Element (lit ''word'') [] (Some [160, 9, 32]) None []"
  let ?p = "Element (lit ''puzzle'') [(lit ''date'', lit ''2024-01-05'')] None None [?w1, ?w2]"
  let ?root = "Element (lit ''spelling_bees'') [] None None [?p]"
  have pw: "findall ?root (lit ''puzzle'') = [?p]" by (simp add: findall_def lit_def)
  have ww: "findall ?p (lit ''word'') = [?w1, ?w2]" by (simp add: findall_def lit_def)
  have sp: "isspace 160" "isspace 9" "isspace 32" by (simp_all add: isspace_def)
  show ?thesis
    using written_blank_records [of plain "\<lambda>c i. 0" ?root] unfolding pw
    by (auto simp: list_all2_Cons1 ww sp)
qed

section \<open>Properties of the fetcher\<close>

lemma brace_depth_snoc: "brace_depth (s @ [ch]) = brace_step (brace_depth s) ch"
  by (simp add: brace_depth_def)

lemma brace_depth_take_Suc:
  "k < length t \<Longrightarrow> brace_depth (take (Suc k) t) = brace_step (brace_depth (take k t)) (t ! k)"
  by (simp add: take_Suc_conv_app_nth brace_depth_snoc)

lemma py_index_nat: "n < length s \<Longrightarrow> py_index s (int n) = Some (s ! n)"
  by (simp add: py_index_def)

lemma py_slice_nat:
  "a \<le> b \<Longrightarrow> b \<le> length s \<Longrightarrow> py_slice s (int a) (int b) = take (b - a) (drop a s)"
  by (simp add: py_slice_def clip_def Let_def)

lemma scan_step:
  assumes "p \<le> j" and "j < length script"
  shows "scan script (int p) (int j) cnt =
           (let cnt' = brace_step cnt (script ! j)
            in if cnt' = 0 then Inr (Some (take (Suc j - p) (drop p script)))
               else scan script (int p) (int (Suc j)) cnt')"
proof -
  have ix: "py_index script (int j) = Some (script ! j)"
    using assms(2) by (rule py_index_nat)
  have "py_slice script (int p) (int (Suc j)) = take (Suc j - p) (drop p script)"
    using assms by (intro py_slice_nat) simp_all
  then have sl: "py_slice script (int p) (1 + int j) = take (Suc j - p) (drop p script)"
    by simp
  show ?thesis
    using assms(2)
    by (subst scan.simps) (simp add: ix sl brace_step_def Let_def add.commute)
qed

lemma scan_end: "scan script (int p) (int (length script)) cnt = Inr None"
  by (subst scan.simps) simp

lemma depth_step:
  assumes "p \<le> j" and "j < length script"
  shows "brace_step (brace_depth (take (j - p) (drop p script))) (script ! j)
         = brace_depth (take (Suc j - p) (drop p script))"
proof -
  have "j - p < length (drop p script)" using assms by simp
  then have "brace_depth (take (Suc (j - p)) (drop p script))
           = brace_step (brace_depth (take (j - p) (drop p script))) (drop p script ! (j - p))"
    by (rule brace_depth_take_Suc)
  moreover have "drop p script ! (j - p) = script ! j" using assms by simp
  moreover have "Suc (j - p) = Suc j - p" using assms(1) by simp
  ultimately show ?thesis by simp
qed

lemma scan_found:
  assumes "p \<le> j" and "j < e" and "e \<le> length script"
    and "cnt = brace_depth (take (j - p) (drop p script))"
    and "brace_depth (take (e - p) (drop p script)) = 0"
    and "\<forall>m. j < m \<and> m < e \<longrightarrow> brace_depth (take (m - p) (drop p script)) \<noteq> 0"
  shows "scan script (int p) (int j) cnt = Inr (Some (take (e - p) (drop p script)))"
  using assms
proof (induction "e - j" arbitrary: j cnt)
  case 0
  then show ?case by simp
next
  case (Suc d)
  have jl: "j < length script" using Suc.prems(2,3) by simp
  have c': "brace_step cnt (script ! j) = brace_depth (take (Suc j - p) (drop p script))"
    unfolding Suc.prems(4) using Suc.prems(1) jl by (rule depth_step)
  note st = scan_step [OF Suc.prems(1) jl, of cnt]
  show ?case
  proof (cases "Suc j = e")
    case True
    then have "brace_step cnt (script ! j) = 0" using c' Suc.prems(5) by simp
    then show ?thesis using True st by (simp add: Let_def)
  next
    case False
    then have lt: "Suc j < e" using Suc.prems(2) by simp
    then have nz: "brace_step cnt (script ! j) \<noteq> 0" using c' Suc.prems(6) by auto
    have "scan script (int p) (int (Suc j)) (brace_step cnt (script ! j))
        = Inr (Some (take (e - p) (drop p script)))"
    proof (rule Suc.hyps(1))
      show "d = e - Suc j" using Suc.hyps(2) by simp
      show "p \<le> Suc j" using Suc.prems(1) by simp
      show "Suc j < e" by (rule lt)
      show "e \<le> length script" by (rule Suc.prems(3))
      show "brace_step cnt (script ! j) = brace_depth (take (Suc j - p) (drop p script))"
        by (rule c')
      show "brace_depth (take (e - p) (drop p script)) = 0" by (rule Suc.prems(5))
      show "\<forall>m. Suc j < m \<and> m < e \<longrightarrow> brace_depth (take (m - p) (drop p script)) \<noteq> 0"
        using Suc.prems(6) by auto
    qed
    then show ?thesis using nz st by (simp add: Let_def)
  qed
qed

lemma scan_not_found:
  assumes "p \<le> j" and "j \<le> length script"
    and "cnt = brace_depth (take (j - p) (drop p script))"
    and "\<forall>m. j < m \<and> m \<le> length script \<longrightarrow> brace_depth (take (m - p) (drop p script)) \<noteq> 0"
  shows "scan script (int p) (int j) cnt = Inr None"
  using assms
proof (induction "length script - j" arbitrary: j cnt)
  case 0
  then have "j = length script" by simp
  then show ?case by (simp add: scan_end)
next
  case (Suc d)
  have jl: "j < length script" using Suc.hyps(2) by simp
  have c': "brace_step cnt (script ! j) = brace_depth (take (Suc j - p) (drop p script))"
    unfolding Suc.prems(3) using Suc.prems(1) jl by (rule depth_step)
  note st = scan_step [OF Suc.prems(1) jl, of cnt]
  have nz: "brace_step cnt (script ! j) \<noteq> 0" using c' jl Suc.prems(4) by auto
  have "scan script (int p) (int (Suc j)) (brace_step cnt (script ! j)) = Inr None"
  proof (rule Suc.hyps(1))
    show "d = length script - Suc j" using Suc.hyps(2) by simp
    show "p \<le> Suc j" using Suc.prems(1) by simp
    show "Suc j \<le> length script" using jl by simp
    show "brace_step cnt (script ! j) = brace_depth (take (Suc j - p) (drop p script))"
      by (rule c')
    show "\<forall>m. Suc j < m \<and> m \<le> length script \<longrightarrow> brace_depth (take (m - p) (drop p script)) \<noteq> 0"
      using Suc.prems(4) by auto
  qed
  then show ?case using nz st by (simp add: Let_def)
qed

lemma py_find_first:
  "ch \<in> set s \<Longrightarrow> py_find ch s = int (length (takeWhile (\<lambda>x. x \<noteq> ch) s))"
  by (simp add: py_find_def)

lemma from_first_brace_drop:
  "from_first_brace script = drop (length (takeWhile (\<lambda>x. x \<noteq> (of_char CHR ''{'')) script)) script"
  by (simp add: from_first_brace_def dropWhile_eq_drop)

text \<open>
  Claim C8, as stated, for every script that contains the marker: the string extracted
  for the JSON parser starts at the first \<open>{\<close> of the script. A script with the
  marker and no \<open>{\<close> at all makes \<open>find\<close> return -1; the loop reads the last
  character, finds the count at zero and extracts the empty string.
\<close>

theorem extract_json_no_brace_counterexample:
  "has_marker (Some (lit ''window.gameData''))
   \<and> (of_char CHR ''{'') \<notin> set (lit ''window.gameData'')
   \<and> extract_json (lit ''window.gameData'') = Inr []"
proof -
  have "has_marker (Some (lit ''window.gameData''))" by (simp add: has_marker_def lit_def)
  moreover have "(of_char CHR ''{'') \<notin> set (lit ''window.gameData'')" by (simp add: lit_def)
  moreover have "extract_json (lit ''window.gameData'') = Inr []" by code_simp
  ultimately show ?thesis by simp
qed

text \<open>
  Claim C8, amended: for every script in which a \<open>{\<close> occurs and the running brace
  depth, counted from the first \<open>{\<close>, returns to zero, the string extracted for the
  JSON parser starts at the first \<open>{\<close> of the script and ends at the first position
  where the depth is zero again: it is the shortest non-empty prefix of the script
  from its first \<open>{\<close> on whose brace depth is zero.
\<close>

theorem extract_json_balanced:
  assumes "(of_char CHR ''{'') \<in> set script"
    and "0 < n" and "n \<le> length (from_first_brace script)"
    and "brace_depth (take n (from_first_brace script)) = 0"
    and "\<forall>m. 0 < m \<and> m < n \<longrightarrow> brace_depth (take m (from_first_brace script)) \<noteq> 0"
  shows "extract_json script = Inr (take n (from_first_brace script))
       \<and> hd (take n (from_first_brace script)) = (of_char CHR ''{'')
       \<and> from_first_brace script = drop (nat (py_find (of_char CHR ''{'') script)) script
       \<and> (of_char CHR ''{'') \<notin> set (take (nat (py_find (of_char CHR ''{'') script)) script)"
proof -
  let ?p = "length (takeWhile (\<lambda>x. x \<noteq> (of_char CHR ''{'')) script)"
  let ?t = "drop ?p script"
  have f: "py_find (of_char CHR ''{'') script = int ?p" using assms(1) by (rule py_find_first)
  have t: "from_first_brace script = ?t" by (rule from_first_brace_drop)
  have pl: "?p \<le> length script" by (rule length_takeWhile_le)
  have "scan script (int ?p) (int ?p) 0 = Inr (Some (take (?p + n - ?p) ?t))"
  proof (rule scan_found)
    show "?p \<le> ?p" by simp
    show "?p < ?p + n" using assms(2) by simp
    show "?p + n \<le> length script" using assms(3) pl unfolding t by simp
    show "0 = brace_depth (take (?p - ?p) ?t)" by (simp add: brace_depth_def)
    show "brace_depth (take (?p + n - ?p) ?t) = 0" using assms(4) unfolding t by simp
    show "\<forall>m. ?p < m \<and> m < ?p + n \<longrightarrow> brace_depth (take (m - ?p) ?t) \<noteq> 0"
    proof (intro allI impI)
      fix m assume "?p < m \<and> m < ?p + n"
      then have "0 < m - ?p \<and> m - ?p < n" by arith
      then show "brace_depth (take (m - ?p) ?t) \<noteq> 0" using assms(5) unfolding t by blast
    qed
  qed
  then have e: "extract_json script = Inr (take n (from_first_brace script))"
    by (simp add: extract_json_def f [simplified] t [simplified] Let_def)
  have ne: "from_first_brace script \<noteq> []"
    using assms(1) by (simp add: from_first_brace_def)
  then obtain a list where al: "from_first_brace script = a # list"
    by (cases "from_first_brace script") auto
  have "hd (from_first_brace script) = (of_char CHR ''{'')"
    using ne hd_dropWhile [of "\<lambda>x. x \<noteq> (of_char CHR ''{'')" script] by (simp add: from_first_brace_def)
  then have a: "a = (of_char CHR ''{'')" using al by simp
  obtain n' where n': "n = Suc n'" using assms(2) by (cases n) auto
  have h: "hd (take n (from_first_brace script)) = (of_char CHR ''{'')"
    unfolding al n' using a by simp
  have "take ?p script = takeWhile (\<lambda>x. x \<noteq> (of_char CHR ''{'')) script"
    by (rule takeWhile_eq_take [symmetric])
  moreover have "(of_char CHR ''{'') \<notin> set (takeWhile (\<lambda>x. x \<noteq> (of_char CHR ''{'')) script)"
    by (auto dest: set_takeWhileD)
  ultimately have "(of_char CHR ''{'') \<notin> set (take ?p script)" by simp
  then show ?thesis using e h t f by simp
qed

theorem extract_json_balanced_witness:
  "(of_char CHR ''{'') \<in> set (lit ''window.gameData = {a{}b}; {}'')
   \<and> from_first_brace (lit ''window.gameData = {a{}b}; {}'') = (lit ''{a{}b}; {}'')
   \<and> brace_depth (lit ''{a{}b}'') = 0
   \<and> extract_json (lit ''window.gameData = {a{}b}; {}'') = Inr (lit ''{a{}b}'')"
proof -
  let ?s = "(lit ''window.gameData = {a{}b}; {}'')"
  have h1: "(of_char CHR ''{'') \<in> set ?s" by (simp add: lit_def)
  have t: "from_first_brace ?s = (lit ''{a{}b}; {}'')" by code_simp
  have h3: "6 \<le> length (from_first_brace ?s)" unfolding t by simp
  have d: "brace_depth (lit ''{a{}b}'') = 0" by code_simp
  have h4: "brace_depth (take 6 (from_first_brace ?s)) = 0" unfolding t using d by (simp add: lit_def)
  have "\<forall>m \<in> set [1 ..< 6]. brace_depth (take m (lit ''{a{}b}; {}'')) \<noteq> 0" by code_simp
  then have h5: "\<forall>m. 0 < m \<and> m < 6 \<longrightarrow> brace_depth (take m (from_first_brace ?s)) \<noteq> 0"
    unfolding t by auto
  have "extract_json ?s = Inr (take 6 (from_first_brace ?s))"
    using extract_json_balanced [OF h1 _ h3 h4 h5] by simp
  moreover have "take 6 (lit ''{a{}b}; {}'') = lit ''{a{}b}''" by (simp add: lit_def)
  ultimately show ?thesis using h1 t d by simp
qed

lemma extract_json_unbalanced:
  assumes "(of_char CHR ''{'') \<in> set script"
    and "\<forall>m. 0 < m \<and> m \<le> length (from_first_brace script)
           \<longrightarrow> brace_depth (take m (from_first_brace script)) \<noteq> 0"
  shows "extract_json script = Inl UnboundLocalError"
proof -
  let ?p = "length (takeWhile (\<lambda>x. x \<noteq> (of_char CHR ''{'')) script)"
  let ?t = "drop ?p script"
  have f: "py_find (of_char CHR ''{'') script = int ?p" using assms(1) by (rule py_find_first)
  have t: "from_first_brace script = ?t" by (rule from_first_brace_drop)
  have pl: "?p \<le> length script" by (rule length_takeWhile_le)
  have "scan script (int ?p) (int ?p) 0 = Inr None"
  proof (rule scan_not_found)
    show "?p \<le> ?p" by simp
    show "?p \<le> length script" by (rule pl)
    show "0 = brace_depth (take (?p - ?p) ?t)" by (simp add: brace_depth_def)
    show "\<forall>m. ?p < m \<and> m \<le> length script \<longrightarrow> brace_depth (take (m - ?p) ?t) \<noteq> 0"
    proof (intro allI impI)
      fix m assume "?p < m \<and> m \<le> length script"
      then have "0 < m - ?p \<and> m - ?p \<le> length ?t" by simp arith
      then show "brace_depth (take (m - ?p) ?t) \<noteq> 0" using assms(2) unfolding t by blast
    qed
  qed
  then show ?thesis by (simp add: extract_json_def f [simplified] Let_def)
qed

lemma el_tag_set_tail [simp]: "el_tag (set_tail t e) = el_tag e"
  by (simp add: set_tail_def)

lemma el_tag_indent [simp]: "el_tag (indent e l) = el_tag e"
  by (cases e) (simp add: indent.simps Let_def)

lemma map_tag_set_tails: "map el_tag (set_tails j i cs) = map el_tag cs"
  by (induction j i cs rule: set_tails.induct) simp_all

lemma children_tag_indent:
  "map el_tag (el_children (indent e l)) = map el_tag (el_children e)"
  by (cases e) (simp add: indent.simps Let_def map_tag_set_tails comp_def)

lemma filter_tag_attrib:
  "map el_tag xs = map el_tag ys \<Longrightarrow> map el_attrib xs = map el_attrib ys \<Longrightarrow>
   map el_attrib (filter (\<lambda>c. el_tag c = tg) xs) = map el_attrib (filter (\<lambda>c. el_tag c = tg) ys)"
proof (induction xs arbitrary: ys)
  case Nil
  then show ?case by simp
next
  case (Cons x xs)
  then obtain y ys' where y: "ys = y # ys'" by (cases ys) auto
  have "el_tag x = el_tag y" "el_attrib x = el_attrib y"
    "map el_tag xs = map el_tag ys'" "map el_attrib xs = map el_attrib ys'"
    using Cons.prems y by simp_all
  then show ?case using Cons.IH [of ys'] y by simp
qed

lemma findall_indent:
  "map el_attrib (findall (indent e l) tg) = map el_attrib (findall e tg)"
  unfolding findall_def
  by (rule filter_tag_attrib) (rule children_tag_indent, rule children_attrib_indent)

lemma load_existing_dates_set: "load_existing_dates w = set (archive_dates w)"
  by (simp add: load_existing_dates_def archive_dates_def split: option.splits)

lemma archive_dates_append:
  "archive_dates (append_puzzle d ws w) = archive_dates w @ [Some d]"
proof -
  let ?root = "case archive w of Some r \<Rightarrow> r | None \<Rightarrow> Element (lit ''spelling_bees'') [] None None []"
  let ?pz = "Element (lit ''puzzle'') [(lit ''date'', d)] None None
               (map (\<lambda>wd. Element (lit ''word'') [] (Some wd) None []) ws)"
  let ?root' = "Element (el_tag ?root) (el_attrib ?root) (el_text ?root) (el_tail ?root)
                  (el_children ?root @ [?pz])"
  have a: "archive (append_puzzle d ws w) = Some (indent ?root' 0)"
    by (simp add: append_puzzle_def Let_def)
  have "map el_attrib (findall (indent ?root' 0) (lit ''puzzle'')) = map el_attrib (findall ?root' (lit ''puzzle''))"
    by (rule findall_indent)
  also have "\<dots> = map el_attrib (findall ?root (lit ''puzzle'')) @ [[(lit ''date'', d)]]"
    by (simp add: findall_def)
  finally have "map (\<lambda>a. map_of a (lit ''date'')) (map el_attrib (findall (indent ?root' 0) (lit ''puzzle'')))
              = map (\<lambda>a. map_of a (lit ''date'')) (map el_attrib (findall ?root (lit ''puzzle'')) @ [[(lit ''date'', d)]])"
    by simp
  then have "map (\<lambda>p. map_of (el_attrib p) (lit ''date'')) (findall (indent ?root' 0) (lit ''puzzle''))
           = map (\<lambda>p. map_of (el_attrib p) (lit ''date'')) (findall ?root (lit ''puzzle'')) @ [Some d]"
    by (simp add: comp_def)
  moreover have "archive_dates w = map (\<lambda>p. map_of (el_attrib p) (lit ''date'')) (findall ?root (lit ''puzzle''))"
    by (simp add: archive_dates_def findall_def split: option.splits)
  ultimately show ?thesis by (simp add: archive_dates_def a)
qed

lemma requests_append [simp]: "requests (append_puzzle d ws w) = requests w"
  by (simp add: append_puzzle_def Let_def)

lemma fetch_world: "snd (fetch_today_words P l r w) = w\<lparr>requests := requests w + 1\<rparr>"
  by (simp add: fetch_today_words_def Let_def split: http_response.splits)

lemma main_exists:
  assumes "Some d \<in> load_existing_dates w"
  shows "main P l r d w =
           (None, w\<lparr>stdout := stdout w @ [(lit ''Puzzle for '') @ d @ (lit '' already exists. No action taken.'')]\<rparr>)"
  using assms by (simp add: main_def Let_def)

lemma main_empty_list:
  assumes "Some d \<notin> load_existing_dates w" and "fst (fetch_today_words P l r w) = Inr []"
  shows "main P l r d w =
           (None, w\<lparr>requests := requests w + 1,
                    stdout := stdout w @ [(lit ''No words fetched for '') @ d @ (lit ''.'')]\<rparr>)"
proof -
  have "fetch_today_words P l r w = (Inr [], w\<lparr>requests := requests w + 1\<rparr>)"
    using assms(2) fetch_world [of P l r w] by (cases "fetch_today_words P l r w") simp
  then show ?thesis using assms(1) by (simp add: main_def Let_def)
qed

lemma main_error:
  assumes "Some d \<notin> load_existing_dates w" and "fst (fetch_today_words P l r w) = Inl e"
  shows "main P l r d w = (Some e, w\<lparr>requests := requests w + 1\<rparr>)"
proof -
  have "fetch_today_words P l r w = (Inl e, w\<lparr>requests := requests w + 1\<rparr>)"
    using assms(2) fetch_world [of P l r w] by (cases "fetch_today_words P l r w") simp
  then show ?thesis using assms(1) by (simp add: main_def Let_def)
qed

lemma main_appended:
  assumes "Some d \<notin> load_existing_dates w" and "fst (fetch_today_words P l r w) = Inr ws"
    and "ws \<noteq> []"
  shows "fst (main P l r d w) = None"
    and "archive_dates (snd (main P l r d w)) = archive_dates w @ [Some d]"
    and "requests (snd (main P l r d w)) = requests w + 1"
proof -
  have f: "fetch_today_words P l r w = (Inr ws, w\<lparr>requests := requests w + 1\<rparr>)"
    using assms(2) fetch_world [of P l r w] by (cases "fetch_today_words P l r w") simp
  have m: "main P l r d w =
     (None, (append_puzzle d ws (w\<lparr>requests := requests w + 1\<rparr>))
        \<lparr>stdout := stdout (append_puzzle d ws (w\<lparr>requests := requests w + 1\<rparr>))
           @ [(lit ''Appended puzzle for '') @ d @ (lit '' with '') @ str_nat (length ws) @ (lit '' words.'')]\<rparr>)"
    using assms(1,3) f by (simp add: main_def Let_def)
  show "fst (main P l r d w) = None" by (simp add: m)
  have "archive_dates (snd (main P l r d w))
      = archive_dates (append_puzzle d ws (w\<lparr>requests := requests w + 1\<rparr>))"
    by (simp add: m archive_dates_def)
  also have "\<dots> = archive_dates (w\<lparr>requests := requests w + 1\<rparr>) @ [Some d]"
    by (rule archive_dates_append)
  finally show "archive_dates (snd (main P l r d w)) = archive_dates w @ [Some d]"
    by (simp add: archive_dates_def)
  show "requests (snd (main P l r d w)) = requests w + 1" by (simp add: m)
qed

lemma main_count:
  "count_list (archive_dates (snd (main P l r d w))) (Some d)
   = (if Some d \<notin> load_existing_dates w
         \<and> (\<exists>ws. fst (fetch_today_words P l r w) = Inr ws \<and> ws \<noteq> [])
      then 1 else count_list (archive_dates w) (Some d))"
proof (cases "Some d \<in> load_existing_dates w")
  case True
  then show ?thesis by (simp add: main_exists archive_dates_def)
next
  case False
  show ?thesis
  proof (cases "fst (fetch_today_words P l r w)")
    case (Inl e)
    then show ?thesis using False by (simp add: main_error archive_dates_def)
  next
    case (Inr ws)
    show ?thesis
    proof (cases "ws = []")
      case True
      then show ?thesis using False Inr by (simp add: main_empty_list archive_dates_def)
    next
      case ne: False
      have "count_list (archive_dates w) (Some d) = 0"
        using False by (simp add: load_existing_dates_set)
      then show ?thesis
        using False Inr ne main_appended(2) [OF False Inr ne] by simp
    qed
  qed
qed

lemma fetch_page_words: "fst (fetch_today_words P l (Page scripts) w) = words_of_page P l scripts"
  by (simp add: fetch_today_words_def Let_def)

text \<open>
  Claim C6, as stated: running the fetcher twice for the same date results in exactly
  one puzzle record for that date. The second run finds the date present only if the
  first run appended it. When the page gives no words, each run fetches, prints that no
  words were fetched and appends nothing: after two runs on an archive without the
  date there is no record for it.
\<close>

theorem fetcher_twice_no_record_counterexample:
  "fst (main plain (\<lambda>s. if s = lit ''{}'' then Inr (JObj []) else Inl JSONDecodeError)
          (Page [Some (lit ''window.gameData = {}'')]) (lit ''2024-01-05'')
          \<lparr>archive = None, requests = 0, stdout = []\<rparr>) = None
   \<and> fst (main plain (\<lambda>s. if s = lit ''{}'' then Inr (JObj []) else Inl JSONDecodeError)
          (Page [Some (lit ''window.gameData = {}'')]) (lit ''2024-01-05'')
          (snd (main plain (\<lambda>s. if s = lit ''{}'' then Inr (JObj []) else Inl JSONDecodeError)
             (Page [Some (lit ''window.gameData = {}'')]) (lit ''2024-01-05'')
             \<lparr>archive = None, requests = 0, stdout = []\<rparr>))) = None
   \<and> count_list (archive_dates (snd
        (main plain (\<lambda>s. if s = lit ''{}'' then Inr (JObj []) else Inl JSONDecodeError)
          (Page [Some (lit ''window.gameData = {}'')]) (lit ''2024-01-05'')
          (snd (main plain (\<lambda>s. if s = lit ''{}'' then Inr (JObj []) else Inl JSONDecodeError)
             (Page [Some (lit ''window.gameData = {}'')]) (lit ''2024-01-05'')
             \<lparr>archive = None, requests = 0, stdout = []\<rparr>)))))
        (Some (lit ''2024-01-05'')) = 0"
proof -
  let ?l = "\<lambda>s. if s = lit ''{}'' then Inr (JObj []) else Inl JSONDecodeError"
  let ?r = "Page [Some (lit ''window.gameData = {}'')]"
  let ?d = "lit ''2024-01-05''"
  let ?w = "\<lparr>archive = None, requests = 0, stdout = []\<rparr>"
  have p: "words_of_page plain ?l [Some (lit ''window.gameData = {}'')] = Inr []"
    by code_simp
  have f: "fst (fetch_today_words plain ?l ?r v) = Inr []" for v
    by (simp only: fetch_page_words p)
  have n: "Some ?d \<notin> load_existing_dates ?w" by (simp add: load_existing_dates_def)
  have m1: "main plain ?l ?r ?d ?w =
      (None, ?w\<lparr>requests := requests ?w + 1,
                stdout := stdout ?w @ [lit ''No words fetched for '' @ ?d @ lit ''.'']\<rparr>)"
    using n f by (rule main_empty_list)
  let ?w1 = "?w\<lparr>requests := requests ?w + 1,
                 stdout := stdout ?w @ [lit ''No words fetched for '' @ ?d @ lit ''.'']\<rparr>"
  have n1: "Some ?d \<notin> load_existing_dates ?w1" by (simp add: load_existing_dates_def)
  have m2: "main plain ?l ?r ?d ?w1 =
      (None, ?w1\<lparr>requests := requests ?w1 + 1,
                 stdout := stdout ?w1 @ [lit ''No words fetched for '' @ ?d @ lit ''.'']\<rparr>)"
    using n1 f by (rule main_empty_list)
  show ?thesis using m2 by (simp add: m1 archive_dates_def)
qed

text \<open>
  Claim C6, amended. If a puzzle record with date \<open>d\<close> is present, a run of the fetcher
  for \<open>d\<close> makes no request and leaves the archive as it is (it only prints that the
  puzzle exists). Consequently, when the first of two runs for \<open>d\<close> appends the
  record (the date was absent and the page gave words), the second run, whatever the
  network answers, makes no request and the archive holds exactly one record for \<open>d\<close>;
  and two runs never leave more than one record for \<open>d\<close> in an archive that had at
  most one.
\<close>

theorem fetcher_idempotent:
  "(Some d \<in> load_existing_dates w \<longrightarrow>
      main P l r d w =
        (None, w\<lparr>stdout := stdout w @ [(lit ''Puzzle for '') @ d @ (lit '' already exists. No action taken.'')]\<rparr>)
      \<and> archive (snd (main P l r d w)) = archive w
      \<and> requests (snd (main P l r d w)) = requests w
      \<and> archive (snd (main P l' r' d (snd (main P l r d w)))) = archive w
      \<and> requests (snd (main P l' r' d (snd (main P l r d w)))) = requests w)
   \<and> (Some d \<notin> load_existing_dates w \<and> fst (fetch_today_words P l r w) = Inr ws \<and> ws \<noteq> [] \<longrightarrow>
      count_list (archive_dates (snd (main P l r d w))) (Some d) = 1
      \<and> count_list (archive_dates (snd (main P l' r' d (snd (main P l r d w))))) (Some d) = 1
      \<and> archive (snd (main P l' r' d (snd (main P l r d w)))) = archive (snd (main P l r d w))
      \<and> requests (snd (main P l' r' d (snd (main P l r d w)))) = requests w + 1)
   \<and> (count_list (archive_dates w) (Some d) \<le> 1 \<longrightarrow>
      count_list (archive_dates (snd (main P l' r' d (snd (main P l r d w))))) (Some d) \<le> 1)"
proof -
  have a: "main P l r d w =
        (None, w\<lparr>stdout := stdout w @ [(lit ''Puzzle for '') @ d @ (lit '' already exists. No action taken.'')]\<rparr>)
      \<and> archive (snd (main P l r d w)) = archive w
      \<and> requests (snd (main P l r d w)) = requests w
      \<and> archive (snd (main P l' r' d (snd (main P l r d w)))) = archive w
      \<and> requests (snd (main P l' r' d (snd (main P l r d w)))) = requests w"
    if h: "Some d \<in> load_existing_dates w"
  proof -
    let ?w1 = "w\<lparr>stdout := stdout w @ [(lit ''Puzzle for '') @ d @ (lit '' already exists. No action taken.'')]\<rparr>"
    have m1: "main P l r d w = (None, ?w1)" using h by (rule main_exists)
    have "load_existing_dates ?w1 = load_existing_dates w"
      by (simp add: load_existing_dates_def)
    then have "Some d \<in> load_existing_dates ?w1" using h by simp
    then have m2: "main P l' r' d ?w1 =
        (None, ?w1\<lparr>stdout := stdout ?w1 @ [(lit ''Puzzle for '') @ d @ (lit '' already exists. No action taken.'')]\<rparr>)"
      by (rule main_exists)
    have s1: "snd (main P l r d w) = ?w1" by (simp only: m1 snd_conv)
    have "archive (snd (main P l' r' d (snd (main P l r d w)))) = archive w"
      and "requests (snd (main P l' r' d (snd (main P l r d w)))) = requests w"
      unfolding s1 m2 by simp_all
    moreover have "archive (snd (main P l r d w)) = archive w"
      and "requests (snd (main P l r d w)) = requests w"
      unfolding s1 by simp_all
    ultimately show ?thesis using m1 by (simp only: simp_thms)
  qed
  have b: "count_list (archive_dates (snd (main P l r d w))) (Some d) = 1
      \<and> count_list (archive_dates (snd (main P l' r' d (snd (main P l r d w))))) (Some d) = 1
      \<and> archive (snd (main P l' r' d (snd (main P l r d w)))) = archive (snd (main P l r d w))
      \<and> requests (snd (main P l' r' d (snd (main P l r d w)))) = requests w + 1"
    if h: "Some d \<notin> load_existing_dates w" "fst (fetch_today_words P l r w) = Inr ws" "ws \<noteq> []"
  proof -
    let ?w1 = "snd (main P l r d w)"
    have d1: "archive_dates ?w1 = archive_dates w @ [Some d]"
      and r1: "requests ?w1 = requests w + 1"
      using main_appended [OF h] by simp_all
    have c0: "count_list (archive_dates w) (Some d) = 0"
      using h(1) by (simp add: load_existing_dates_set)
    have c1: "count_list (archive_dates ?w1) (Some d) = 1"
      unfolding d1 using c0 by simp
    have p: "Some d \<in> load_existing_dates ?w1"
      by (simp add: load_existing_dates_set d1)
    have m2: "main P l' r' d ?w1 =
        (None, ?w1\<lparr>stdout := stdout ?w1 @ [(lit ''Puzzle for '') @ d @ (lit '' already exists. No action taken.'')]\<rparr>)"
      using p by (rule main_exists)
    have "archive_dates (snd (main P l' r' d ?w1)) = archive_dates ?w1"
      by (simp add: m2 archive_dates_def)
    then show ?thesis using c1 r1 by (simp add: m2)
  qed
  have c: "count_list (archive_dates (snd (main P l' r' d (snd (main P l r d w))))) (Some d) \<le> 1"
    if "count_list (archive_dates w) (Some d) \<le> 1"
  proof -
    have "count_list (archive_dates (snd (main P l r d w))) (Some d) \<le> 1"
      using that by (simp add: main_count)
    then show ?thesis by (simp add: main_count)
  qed
  show ?thesis using a b c by blast
qed

text \<open>
  Claim C7. If the word list extracted for today is empty, the run appends nothing: the
  archive is unchanged, no exception ends the run, and when the fetch was made (the date
  was absent) the run prints that no words were fetched.
\<close>

theorem main_no_words:
  assumes "fst (fetch_today_words P l r w) = Inr []"
  shows "fst (main P l r d w) = None
       \<and> archive (snd (main P l r d w)) = archive w
       \<and> (Some d \<notin> load_existing_dates w \<longrightarrow>
            main P l r d w =
              (None, w\<lparr>requests := requests w + 1,
                       stdout := stdout w @ [(lit ''No words fetched for '') @ d @ (lit ''.'')]\<rparr>))"
proof (cases "Some d \<in> load_existing_dates w")
  case True
  then show ?thesis by (simp add: main_exists)
next
  case False
  then show ?thesis using assms by (simp add: main_empty_list)
qed

theorem main_no_words_witness:
  "fst (fetch_today_words plain (\<lambda>s. if s = (lit ''{}'') then Inr (JObj []) else Inl JSONDecodeError)
          (Page [None, Some (lit ''window.gameData = {}'')])
          \<lparr>archive = Some (Element (lit ''spelling_bees'') [] None None
              [Element (lit ''puzzle'') [(lit ''date'', (lit ''2024-01-04''))] None None []]),
           requests = 0, stdout = []\<rparr>) = Inr []
   \<and> Some (lit ''2024-01-05'') \<notin> load_existing_dates
          \<lparr>archive = Some (Element (lit ''spelling_bees'') [] None None
              [Element (lit ''puzzle'') [(lit ''date'', (lit ''2024-01-04''))] None None []]),
           requests = 0, stdout = []\<rparr>
   \<and> main plain (\<lambda>s. if s = (lit ''{}'') then Inr (JObj []) else Inl JSONDecodeError)
          (Page [None, Some (lit ''window.gameData = {}'')]) (lit ''2024-01-05'')
          \<lparr>archive = Some (Element (lit ''spelling_bees'') [] None None
              [Element (lit ''puzzle'') [(lit ''date'', (lit ''2024-01-04''))] None None []]),
           requests = 0, stdout = []\<rparr>
       = (None, \<lparr>archive = Some (Element (lit ''spelling_bees'') [] None None
              [Element (lit ''puzzle'') [(lit ''date'', (lit ''2024-01-04''))] None None []]),
           requests = 1, stdout = [(lit ''No words fetched for 2024-01-05.'')]\<rparr>)"
proof -
  let ?l = "\<lambda>s. if s = (lit ''{}'') then Inr (JObj []) else Inl JSONDecodeError"
  let ?w = "\<lparr>archive = Some (Element (lit ''spelling_bees'') [] None None
              [Element (lit ''puzzle'') [(lit ''date'', (lit ''2024-01-04''))] None None []]),
           requests = 0, stdout = []\<rparr>"
  have "words_of_page plain ?l [None, Some (lit ''window.gameData = {}'')] = Inr []" by code_simp
  then have f: "fst (fetch_today_words plain ?l (Page [None, Some (lit ''window.gameData = {}'')]) ?w) = Inr []"
    by (simp add: fetch_today_words_def)
  have n: "Some (lit ''2024-01-05'') \<notin> load_existing_dates ?w"
    by (simp add: load_existing_dates_def findall_def)
  show ?thesis
    using main_no_words [OF f, of "(lit ''2024-01-05'')"] f n by (simp add: lit_def)
qed

theorem fetcher_idempotent_witness:
  "Some (lit ''2024-01-05'') \<notin> load_existing_dates
          \<lparr>archive = Some (Element (lit ''spelling_bees'') [] None None
              [Element (lit ''puzzle'') [(lit ''date'', (lit ''2024-01-04''))] None None []]),
           requests = 0, stdout = []\<rparr>
   \<and> fst (fetch_today_words plain
          (\<lambda>s. if s = (lit ''{\"today\": {\"answers\": [\"abc\"]}}'')
              then Inr (JObj [(lit ''today'', JObj [(lit ''answers'', JArr [JStr (lit ''abc'')])])])
              else Inl JSONDecodeError)
          (Page [Some (lit ''window.gameData = {\"today\": {\"answers\": [\"abc\"]}}'')])
          \<lparr>archive = Some (Element (lit ''spelling_bees'') [] None None
              [Element (lit ''puzzle'') [(lit ''date'', (lit ''2024-01-04''))] None None []]),
           requests = 0, stdout = []\<rparr>) = Inr [(lit ''ABC'')]
   \<and> count_list (archive_dates (snd (main plain
          (\<lambda>s. if s = (lit ''{\"today\": {\"answers\": [\"abc\"]}}'')
              then Inr (JObj [(lit ''today'', JObj [(lit ''answers'', JArr [JStr (lit ''abc'')])])])
              else Inl JSONDecodeError)
          RequestFailed (lit ''2024-01-05'') (snd (main plain
          (\<lambda>s. if s = (lit ''{\"today\": {\"answers\": [\"abc\"]}}'')
              then Inr (JObj [(lit ''today'', JObj [(lit ''answers'', JArr [JStr (lit ''abc'')])])])
              else Inl JSONDecodeError)
          (Page [Some (lit ''window.gameData = {\"today\": {\"answers\": [\"abc\"]}}'')]) (lit ''2024-01-05'')
          \<lparr>archive = Some (Element (lit ''spelling_bees'') [] None None
              [Element (lit ''puzzle'') [(lit ''date'', (lit ''2024-01-04''))] None None []]),
           requests = 0, stdout = []\<rparr>))))) (Some (lit ''2024-01-05'')) = 1
   \<and> requests (snd (main plain
          (\<lambda>s. if s = (lit ''{\"today\": {\"answers\": [\"abc\"]}}'')
              then Inr (JObj [(lit ''today'', JObj [(lit ''answers'', JArr [JStr (lit ''abc'')])])])
              else Inl JSONDecodeError)
          RequestFailed (lit ''2024-01-05'') (snd (main plain
          (\<lambda>s. if s = (lit ''{\"today\": {\"answers\": [\"abc\"]}}'')
              then Inr (JObj [(lit ''today'', JObj [(lit ''answers'', JArr [JStr (lit ''abc'')])])])
              else Inl JSONDecodeError)
          (Page [Some (lit ''window.gameData = {\"today\": {\"answers\": [\"abc\"]}}'')]) (lit ''2024-01-05'')
          \<lparr>archive = Some (Element (lit ''spelling_bees'') [] None None
              [Element (lit ''puzzle'') [(lit ''date'', (lit ''2024-01-04''))] None None []]),
           requests = 0, stdout = []\<rparr>)))) = 1
   \<and> Some (lit ''2024-01-04'') \<in> load_existing_dates
          \<lparr>archive = Some (Element (lit ''spelling_bees'') [] None None
              [Element (lit ''puzzle'') [(lit ''date'', (lit ''2024-01-04''))] None None []]),
           requests = 0, stdout = []\<rparr>
   \<and> main plain
          (\<lambda>s. if s = (lit ''{\"today\": {\"answers\": [\"abc\"]}}'')
              then Inr (JObj [(lit ''today'', JObj [(lit ''answers'', JArr [JStr (lit ''abc'')])])])
              else Inl JSONDecodeError)
          (Page [Some (lit ''window.gameData = {\"today\": {\"answers\": [\"abc\"]}}'')]) (lit ''2024-01-04'')
          \<lparr>archive = Some (Element (lit ''spelling_bees'') [] None None
              [Element (lit ''puzzle'') [(lit ''date'', (lit ''2024-01-04''))] None None []]),
           requests = 0, stdout = []\<rparr>
       = (None, \<lparr>archive = Some (Element (lit ''spelling_bees'') [] None None
              [Element (lit ''puzzle'') [(lit ''date'', (lit ''2024-01-04''))] None None []]),
           requests = 0,
           stdout = [(lit ''Puzzle for 2024-01-04 already exists. No action taken.'')]\<rparr>)"
proof -
  let ?l = "(\<lambda>s. if s = (lit ''{\"today\": {\"answers\": [\"abc\"]}}'')
              then Inr (JObj [(lit ''today'', JObj [(lit ''answers'', JArr [JStr (lit ''abc'')])])])
              else Inl JSONDecodeError)"
  let ?r = "(Page [Some (lit ''window.gameData = {\"today\": {\"answers\": [\"abc\"]}}'')])"
  let ?w = "\<lparr>archive = Some (Element (lit ''spelling_bees'') [] None None
              [Element (lit ''puzzle'') [(lit ''date'', (lit ''2024-01-04''))] None None []]),
           requests = 0, stdout = []\<rparr>"
  have "words_of_page plain ?l [Some (lit ''window.gameData = {\"today\": {\"answers\": [\"abc\"]}}'')]
        = Inr [(lit ''ABC'')]"
    by code_simp
  then have f: "fst (fetch_today_words plain ?l ?r ?w) = Inr [(lit ''ABC'')]"
    by (simp add: fetch_today_words_def)
  have n: "Some (lit ''2024-01-05'') \<notin> load_existing_dates ?w"
    by (simp add: load_existing_dates_def findall_def)
  have e: "Some (lit ''2024-01-04'') \<in> load_existing_dates ?w"
    by (simp add: load_existing_dates_def findall_def)
  note t1 = fetcher_idempotent [where d = "(lit ''2024-01-05'')" and w = ?w and l = ?l and r = ?r
      and ws = "[(lit ''ABC'')]" and l' = ?l and r' = RequestFailed]
  note t2 = fetcher_idempotent [where d = "(lit ''2024-01-04'')" and w = ?w and l = ?l and r = ?r
      and ws = "[]" and l' = ?l and r' = RequestFailed]
  have c: "count_list (archive_dates (snd (main plain ?l RequestFailed (lit ''2024-01-05'')
             (snd (main plain ?l ?r (lit ''2024-01-05'') ?w))))) (Some (lit ''2024-01-05'')) = 1"
    and q: "requests (snd (main plain ?l RequestFailed (lit ''2024-01-05'')
             (snd (main plain ?l ?r (lit ''2024-01-05'') ?w)))) = requests ?w + 1"
    using t1 n f by blast+
  have m: "main plain ?l ?r (lit ''2024-01-04'') ?w =
        (None, ?w\<lparr>stdout := stdout ?w
           @ [(lit ''Puzzle for '') @ (lit ''2024-01-04'') @ (lit '' already exists. No action taken.'')]\<rparr>)"
    using t2 e by blast
  show ?thesis using n f c q e m by (simp add: lit_def)
qed

end
